theory Spec2Isabelle
  imports Complex_Main "HOL-Library.Word"
begin

section \<open>Python values used by the bot\<close>

text \<open>
  The bot is two Python files, \<^verbatim>\<open>for_both.py\<close> and \<^verbatim>\<open>image_resize.py\<close>. Both contain
  the same helpers (\<^verbatim>\<open>convert_to_bytes\<close>, \<^verbatim>\<open>get_size_in_appropriate_unit\<close>) and the same
  message handlers; they differ in \<^verbatim>\<open>ImageProcessor.process_image\<close>.

  Exceptions are values: a Python function that can raise returns \<open>py_error + 'a\<close>.
  The handlers only distinguish \<^verbatim>\<open>ValueError\<close> from the other exception classes, which
  are all \<open>Exception\<close> here; the string is what \<^verbatim>\<open>str(e)\<close> gives.
\<close>

datatype py_error = ValueError string | Exception string

type_synonym bytes = "8 word list"

subsection \<open>Floats\<close>

text \<open>
  A Python \<^verbatim>\<open>float\<close> is an IEEE 754 binary64 number: not a number, or a sign with a magnitude
  that is infinite (\<open>None\<close>) or a rational with at most 53 significant bits and an exponent
  between \<open>-1074\<close> and \<open>971\<close>. \<open>Num True (Some 0)\<close> is the negative zero. Every operation
  computes the exact result and rounds it to the nearest such number, ties to even
  (\<open>round64\<close>): below 2 to the power -1022 the spacing stays 2 to the power -1074
  (subnormal numbers, and zero on underflow), and a rounded magnitude of 2 to the power 1024
  or more is infinite.
\<close>

datatype pyfloat = NaN | Num bool "rat option"

fun bit_length :: "nat \<Rightarrow> nat" where
  "bit_length n = (if n = 0 then 0 else Suc (bit_length (n div 2)))"

declare bit_length.simps [simp del]

definition pow2 :: "int \<Rightarrow> rat" where
  "pow2 e = (if 0 \<le> e then 2 ^ nat e else 1 / 2 ^ nat (- e))"

definition ilog2 :: "rat \<Rightarrow> int" where
  \<comment> \<open>\<open>\<lfloor>log\<^sub>2 x\<rfloor>\<close> for \<open>0 < x\<close>\<close>
  "ilog2 x = (if 1 \<le> x then int (bit_length (nat \<lfloor>x\<rfloor>)) - 1
              else - int (bit_length (nat (\<lceil>1 / x\<rceil> - 1))))"

definition round_half_even :: "rat \<Rightarrow> int" where
  "round_half_even y =
     (let f = \<lfloor>y\<rfloor>; d = y - of_int f
      in if d < 1 / 2 then f else if 1 / 2 < d then f + 1
         else if even f then f else f + 1)"

definition round_mag :: "rat \<Rightarrow> rat" where
  \<comment> \<open>a magnitude \<open>0 \<le> x\<close>, rounded to 53 bits, or to a multiple of \<open>pow2 (- 1074)\<close>\<close>
  "round_mag x =
     (if x = 0 then 0
      else let e = max (ilog2 x) (- 1022) - 52
           in of_int (round_half_even (x / pow2 e)) * pow2 e)"

definition round64 :: "rat \<Rightarrow> rat option" where
  "round64 x = (let r = round_mag x in if pow2 1024 \<le> r then None else Some r)"

definition float_of_rat :: "rat \<Rightarrow> pyfloat" where
  \<comment> \<open>the float nearest to an exact value that is not zero, or the positive zero\<close>
  "float_of_rat x = Num (x < 0) (round64 \<bar>x\<bar>)"

definition fmul :: "pyfloat \<Rightarrow> pyfloat \<Rightarrow> pyfloat" where
  \<comment> \<open>\<^verbatim>\<open>a * b\<close> on floats\<close>
  "fmul a b =
     (case (a, b) of
        (Num s (Some x), Num t (Some y)) \<Rightarrow> Num (s \<noteq> t) (round64 (x * y))
      | (Num s None, Num t (Some y)) \<Rightarrow> if y = 0 then NaN else Num (s \<noteq> t) None
      | (Num s (Some x), Num t None) \<Rightarrow> if x = 0 then NaN else Num (s \<noteq> t) None
      | (Num s None, Num t None) \<Rightarrow> Num (s \<noteq> t) None
      | _ \<Rightarrow> NaN)"

definition fdiv :: "pyfloat \<Rightarrow> pyfloat \<Rightarrow> py_error + pyfloat" where
  \<comment> \<open>\<^verbatim>\<open>a / b\<close> on floats\<close>
  "fdiv a b =
     (case (a, b) of
        (Num s (Some x), Num t (Some y)) \<Rightarrow>
          if y = 0 then Inl (Exception ''float division by zero'')
          else Inr (Num (s \<noteq> t) (round64 (x / y)))
      | (Num s None, Num t (Some y)) \<Rightarrow>
          if y = 0 then Inl (Exception ''float division by zero'') else Inr (Num (s \<noteq> t) None)
      | (Num s (Some x), Num t None) \<Rightarrow> Inr (Num (s \<noteq> t) (Some 0))
      | (Num s None, Num t None) \<Rightarrow> Inr NaN
      | (NaN, Num t (Some y)) \<Rightarrow>
          if y = 0 then Inl (Exception ''float division by zero'') else Inr NaN
      | _ \<Rightarrow> Inr NaN)"

definition float_of_int :: "int \<Rightarrow> py_error + pyfloat" where
  \<comment> \<open>the conversion of an \<^verbatim>\<open>int\<close> operand in mixed arithmetic\<close>
  "float_of_int n =
     (case round64 \<bar>of_int n\<bar> of
        None \<Rightarrow> Inl (Exception ''int too large to convert to float'')
      | Some r \<Rightarrow> Inr (Num (n < 0) (Some r)))"

definition int_truediv :: "int \<Rightarrow> int \<Rightarrow> py_error + pyfloat" where
  \<comment> \<open>\<^verbatim>\<open>a / b\<close> on two ints: the exact quotient, rounded once\<close>
  "int_truediv a b =
     (if b = 0 then Inl (Exception ''division by zero'')
      else (case round64 \<bar>of_int a / of_int b\<bar> of
              None \<Rightarrow> Inl (Exception ''integer division result too large for a float'')
            | Some r \<Rightarrow> Inr (Num ((a < 0) \<noteq> (b < 0)) (Some r))))"

definition py_int :: "pyfloat \<Rightarrow> py_error + int" where
  \<comment> \<open>\<^verbatim>\<open>int(x)\<close> truncates towards zero\<close>
  "py_int x =
     (case x of
        NaN \<Rightarrow> Inl (ValueError ''cannot convert float NaN to integer'')
      | Num s None \<Rightarrow> Inl (Exception ''cannot convert float infinity to integer'')
      | Num s (Some m) \<Rightarrow> Inr (if s then - \<lfloor>m\<rfloor> else \<lfloor>m\<rfloor>))"

text \<open>
  Comparisons are exact, also between an \<^verbatim>\<open>int\<close> and a \<^verbatim>\<open>float\<close>, and every comparison with
  not a number is false. A number is compared through its place on the extended line.
\<close>

datatype xnum = Minus_Inf | Finite rat | Plus_Inf

definition xnum_of_float :: "pyfloat \<Rightarrow> xnum option" where
  "xnum_of_float x =
     (case x of
        NaN \<Rightarrow> None
      | Num s None \<Rightarrow> Some (if s then Minus_Inf else Plus_Inf)
      | Num s (Some m) \<Rightarrow> Some (Finite (if s then - m else m)))"

fun xnum_le :: "xnum \<Rightarrow> xnum \<Rightarrow> bool" where
  "xnum_le Minus_Inf y = True"
| "xnum_le (Finite a) Minus_Inf = False"
| "xnum_le (Finite a) (Finite b) = (a \<le> b)"
| "xnum_le (Finite a) Plus_Inf = True"
| "xnum_le Plus_Inf y = (y = Plus_Inf)"

definition float_le :: "pyfloat \<Rightarrow> pyfloat \<Rightarrow> bool" where
  \<comment> \<open>\<^verbatim>\<open>a <= b\<close>\<close>
  "float_le a b =
     (case (xnum_of_float a, xnum_of_float b) of
        (Some x, Some y) \<Rightarrow> xnum_le x y | _ \<Rightarrow> False)"

definition int_le_float :: "int \<Rightarrow> pyfloat \<Rightarrow> bool" where
  \<comment> \<open>\<^verbatim>\<open>n <= b\<close>\<close>
  "int_le_float n b = (case xnum_of_float b of Some y \<Rightarrow> xnum_le (Finite (of_int n)) y | None \<Rightarrow> False)"

definition float_le_int :: "pyfloat \<Rightarrow> int \<Rightarrow> bool" where
  \<comment> \<open>\<^verbatim>\<open>a <= n\<close>\<close>
  "float_le_int a n = (case xnum_of_float a of Some x \<Rightarrow> xnum_le x (Finite (of_int n)) | None \<Rightarrow> False)"

definition int_lt_float :: "int \<Rightarrow> pyfloat \<Rightarrow> bool" where
  \<comment> \<open>\<^verbatim>\<open>n < b\<close>\<close>
  "int_lt_float n b =
     (case xnum_of_float b of
        Some y \<Rightarrow> xnum_le (Finite (of_int n)) y \<and> \<not> xnum_le y (Finite (of_int n))
      | None \<Rightarrow> False)"

definition float_lt_int :: "pyfloat \<Rightarrow> int \<Rightarrow> bool" where
  \<comment> \<open>\<^verbatim>\<open>a < n\<close>, which is also \<^verbatim>\<open>n > a\<close>\<close>
  "float_lt_int a n =
     (case xnum_of_float a of
        Some x \<Rightarrow> xnum_le x (Finite (of_int n)) \<and> \<not> xnum_le (Finite (of_int n)) x
      | None \<Rightarrow> False)"

abbreviation float_1024 :: pyfloat where
  "float_1024 \<equiv> Num False (Some 1024)"

lemma bit_length_pos: "0 < n \<Longrightarrow> 0 < bit_length n"
  by (subst bit_length.simps) simp

lemma bit_length_bounds: "0 < n \<Longrightarrow> 2 ^ (bit_length n - 1) \<le> n \<and> n < 2 ^ bit_length n"
proof (induction n rule: bit_length.induct)
  case (1 n)
  from "1.prems" have n0: "n \<noteq> 0" by simp
  have bl: "bit_length n = Suc (bit_length (n div 2))"
    using n0 by (subst bit_length.simps) simp
  show ?case
  proof (cases "n div 2 = 0")
    case True
    then have b0: "bit_length (n div 2) = 0" by (subst bit_length.simps) simp
    from True "1.prems" have "n = 1" by presburger
    then show ?thesis using bl b0 by simp
  next
    case False
    then have pos: "0 < n div 2" by simp
    from "1.IH"[OF n0 pos]
    have ih: "2 ^ (bit_length (n div 2) - 1) \<le> n div 2" "n div 2 < 2 ^ bit_length (n div 2)"
      by simp_all
    obtain j where j: "bit_length (n div 2) = Suc j"
      using bit_length_pos[OF pos] by (cases "bit_length (n div 2)") simp_all
    have "(2::nat) ^ Suc j \<le> 2 * (n div 2)" using ih(1) j by simp
    also have "\<dots> \<le> n" by simp
    finally have lo: "2 ^ (bit_length n - 1) \<le> n" by (simp add: bl j)
    have "n < 2 * (n div 2) + 2" by presburger
    also have "\<dots> \<le> 2 * 2 ^ Suc j" using ih(2) j by simp
    finally have hi: "n < 2 ^ bit_length n" by (simp add: bl j)
    from lo hi show ?thesis by simp
  qed
qed

lemma pow2_powi: "pow2 e = 2 powi e"
  by (simp add: pow2_def power_int_def power_inverse inverse_eq_divide power_one_over)

lemma pow2_pos [simp]: "0 < pow2 e"
  by (simp add: pow2_powi)

lemma pow2_nonzero [simp]: "pow2 e \<noteq> 0"
  by (simp add: pow2_powi)

lemma pow2_add: "pow2 (a + b) = pow2 a * pow2 b"
  by (simp add: pow2_powi power_int_add)

lemma pow2_mono: "a \<le> b \<Longrightarrow> pow2 a \<le> pow2 b"
  by (simp add: pow2_powi power_int_increasing)

lemma pow2_nat: "pow2 (int n) = 2 ^ n"
  by (simp add: pow2_def)

lemma pow2_neg_nat: "pow2 (- int n) = 1 / 2 ^ n"
  by (simp add: pow2_powi power_int_minus inverse_eq_divide)

lemma two_power_le_of_nat: "(2::nat) ^ k \<le> n \<Longrightarrow> (2::rat) ^ k \<le> of_nat n"
proof -
  assume "(2::nat) ^ k \<le> n"
  then have "(of_nat (2 ^ k) :: rat) \<le> of_nat n" by (simp only: of_nat_le_iff)
  then show ?thesis by simp
qed

lemma of_nat_Suc_le_two_power: "n < (2::nat) ^ k \<Longrightarrow> (of_nat n :: rat) + 1 \<le> 2 ^ k"
proof -
  assume "n < (2::nat) ^ k"
  then have "Suc n \<le> 2 ^ k" by simp
  then have "(of_nat (Suc n) :: rat) \<le> of_nat (2 ^ k)" by (simp only: of_nat_le_iff)
  then show ?thesis by simp
qed

lemma ilog2_bounds:
  assumes "0 < x"
  shows "pow2 (ilog2 x) \<le> x \<and> x < pow2 (ilog2 x + 1)"
proof (cases "1 \<le> x")
  case True
  define n where "n = nat \<lfloor>x\<rfloor>"
  have fpos: "1 \<le> \<lfloor>x\<rfloor>" using True by simp
  then have npos: "0 < n" by (simp add: n_def)
  have nx: "of_nat n \<le> x" "x < of_nat n + 1"
  proof -
    have "(of_nat n :: rat) = of_int \<lfloor>x\<rfloor>" using fpos by (simp add: n_def)
    then show "of_nat n \<le> x" "x < of_nat n + 1" by linarith+
  qed
  from bit_length_bounds[OF npos]
  have b: "2 ^ (bit_length n - 1) \<le> n" "n < 2 ^ bit_length n" by simp_all
  obtain j where j: "bit_length n = Suc j"
    using bit_length_pos[OF npos] by (cases "bit_length n") simp_all
  have il: "ilog2 x = int j"
    using True by (simp add: ilog2_def n_def[symmetric] j)
  have "(2::rat) ^ j \<le> of_nat n" using b(1) j by (intro two_power_le_of_nat) simp
  then have lo: "pow2 (ilog2 x) \<le> x" using nx(1) unfolding il pow2_nat by linarith
  have "(of_nat n + 1 :: rat) \<le> 2 ^ Suc j" using b(2) j by (intro of_nat_Suc_le_two_power) simp
  then have hi: "x < 2 ^ Suc j" using nx(2) by linarith
  have "ilog2 x + 1 = int (Suc j)" using il by simp
  then have "pow2 (ilog2 x + 1) = 2 ^ Suc j" by (simp only: pow2_nat)
  with lo hi show ?thesis by simp
next
  case False
  define y where "y = 1 / x"
  have y1: "1 < y" using False assms by (simp add: y_def)
  define m where "m = nat (\<lceil>y\<rceil> - 1)"
  have c2: "2 \<le> \<lceil>y\<rceil>" using y1 by (simp add: le_ceiling_iff)
  then have mpos: "0 < m" by (simp add: m_def)
  have mi: "(of_nat m :: rat) = of_int \<lceil>y\<rceil> - 1" using c2 by (simp add: m_def)
  have "of_int \<lceil>y\<rceil> - 1 < y" "y \<le> of_int \<lceil>y\<rceil>" by linarith+
  then have my: "of_nat m < y" "y \<le> of_nat m + 1" using mi by simp_all
  from bit_length_bounds[OF mpos]
  have b: "2 ^ (bit_length m - 1) \<le> m" "m < 2 ^ bit_length m" by simp_all
  obtain j where j: "bit_length m = Suc j"
    using bit_length_pos[OF mpos] by (cases "bit_length m") simp_all
  have il: "ilog2 x = - int (Suc j)"
    using False by (simp add: ilog2_def m_def[symmetric] y_def[symmetric] j)
  have "(of_nat m + 1 :: rat) \<le> 2 ^ Suc j" using b(2) j by (intro of_nat_Suc_le_two_power) simp
  then have "y \<le> 2 ^ Suc j" using my(2) by linarith
  then have "1 / 2 ^ Suc j \<le> x"
    using assms by (simp add: y_def field_simps)
  then have lo: "pow2 (ilog2 x) \<le> x"
    unfolding il pow2_neg_nat .
  have "(2::rat) ^ j \<le> of_nat m" using b(1) j by (intro two_power_le_of_nat) simp
  then have "2 ^ j < y" using my(1) by linarith
  then have hi0: "x < 1 / 2 ^ j"
    using assms by (simp add: y_def field_simps)
  have "ilog2 x + 1 = - int j" using il by simp
  then have "pow2 (ilog2 x + 1) = 1 / 2 ^ j"
    by (simp only: pow2_neg_nat)
  with lo hi0 show ?thesis by simp
qed

lemma ilog2_unique:
  assumes "pow2 k \<le> x" "x < pow2 (k + 1)"
  shows "ilog2 x = k"
proof -
  have xpos: "0 < x" using assms(1) pow2_pos[of k] by linarith
  from ilog2_bounds[OF xpos]
  have b: "pow2 (ilog2 x) \<le> x" "x < pow2 (ilog2 x + 1)" by simp_all
  have "\<not> ilog2 x < k"
  proof
    assume "ilog2 x < k"
    then have "pow2 (ilog2 x + 1) \<le> pow2 k" by (intro pow2_mono) simp
    with b(2) assms(1) show False by linarith
  qed
  moreover have "\<not> k < ilog2 x"
  proof
    assume "k < ilog2 x"
    then have "pow2 (k + 1) \<le> pow2 (ilog2 x)" by (intro pow2_mono) simp
    with b(1) assms(2) show False by linarith
  qed
  ultimately show ?thesis by simp
qed

lemma round_half_even_bounds:
  "of_int (round_half_even y) \<le> y + 1 / 2 \<and> y - 1 / 2 \<le> of_int (round_half_even y)"
proof -
  have f: "of_int \<lfloor>y\<rfloor> \<le> y" "y < of_int \<lfloor>y\<rfloor> + 1" by linarith+
  consider "y - of_int \<lfloor>y\<rfloor> < 1 / 2" | "1 / 2 < y - of_int \<lfloor>y\<rfloor>" | "y - of_int \<lfloor>y\<rfloor> = 1 / 2"
    by linarith
  then show ?thesis
  proof cases
    case 1
    then have r: "round_half_even y = \<lfloor>y\<rfloor>" by (simp add: round_half_even_def Let_def)
    show ?thesis unfolding r using f 1 by (intro conjI; linarith)
  next
    case 2
    then have r: "round_half_even y = \<lfloor>y\<rfloor> + 1" by (simp add: round_half_even_def Let_def)
    show ?thesis unfolding r of_int_add of_int_1 using f 2 by (intro conjI; linarith)
  next
    case 3
    then consider "round_half_even y = \<lfloor>y\<rfloor>" | "round_half_even y = \<lfloor>y\<rfloor> + 1"
      by (cases "even \<lfloor>y\<rfloor>") (simp_all add: round_half_even_def Let_def)
    then show ?thesis
    proof cases
      case 1
      show ?thesis unfolding 1 using f 3 by (intro conjI; linarith)
    next
      case 2
      show ?thesis unfolding 2 of_int_add of_int_1 using f 3 by (intro conjI; linarith)
    qed
  qed
qed

lemma round_half_even_of_int: "round_half_even (of_int m) = m"
  by (simp add: round_half_even_def)

definition is_float_mag :: "rat \<Rightarrow> bool" where
  \<comment> \<open>the magnitudes that rounding leaves as they are, before the test for infinity\<close>
  "is_float_mag r = (\<exists>m k. r = of_int m * pow2 k \<and> 0 \<le> m \<and> m < 2 ^ 53 \<and> - 1074 \<le> k)"

lemma round_mag_zero [simp]: "round_mag 0 = 0"
  by (simp add: round_mag_def)

lemma round_mag_pos_unfold:
  "0 < x \<Longrightarrow> round_mag x =
     of_int (round_half_even (x / pow2 (max (ilog2 x) (- 1022) - 52)))
       * pow2 (max (ilog2 x) (- 1022) - 52)"
  by (simp add: round_mag_def Let_def)

lemma round_mag_exact:
  assumes "0 \<le> m" "m < 2 ^ 53" "- 1074 \<le> k"
  shows "round_mag (of_int m * pow2 k) = of_int m * pow2 k"
proof (cases "m = 0")
  case True
  then show ?thesis by simp
next
  case False
  with assms(1) have m0: "0 < m" by simp
  define x where "x = (of_int m :: rat) * pow2 k"
  have mpos: "(0::rat) < of_int m" using m0 by simp
  have xpos: "0 < x" using mpos by (simp add: x_def)
  define j where "j = ilog2 (of_int m)"
  from ilog2_bounds[OF mpos]
  have jb: "pow2 j \<le> of_int m" "of_int m < pow2 (j + 1)" by (simp_all add: j_def)
  have "(of_int m :: rat) < of_int (2 ^ 53)" using assms(2) by (simp only: of_int_less_iff)
  then have "pow2 j < pow2 53" using jb(1) by (simp add: pow2_def)
  then have j52: "j \<le> 52" using pow2_mono[of 53 j] by (cases "53 \<le> j") auto
  have il: "ilog2 x = j + k"
  proof (rule ilog2_unique)
    show "pow2 (j + k) \<le> x" using jb(1) by (simp add: x_def pow2_add)
    have "j + k + 1 = (j + 1) + k" by simp
    then have "pow2 (j + k + 1) = pow2 (j + 1) * pow2 k" by (simp only: pow2_add)
    moreover have "of_int m * pow2 k < pow2 (j + 1) * pow2 k"
      using jb(2) pow2_pos[of k] by (intro mult_strict_right_mono)
    ultimately show "x < pow2 (j + k + 1)" by (simp add: x_def)
  qed
  define e where "e = max (j + k) (- 1022) - 52"
  have ek: "e \<le> k" using j52 assms(3) by (simp add: e_def max_def)
  define d where "d = nat (k - e)"
  have dk: "k = e + int d" using ek by (simp add: d_def)
  have "pow2 k = pow2 e * pow2 (int d)" by (subst dk) (simp only: pow2_add)
  then have pk: "pow2 k = pow2 e * 2 ^ d" by (simp add: pow2_nat)
  have q: "x / pow2 e = of_int (m * 2 ^ d)"
    by (simp add: x_def pk)
  have "round_mag x = of_int (round_half_even (x / pow2 e)) * pow2 e"
    using xpos by (simp add: round_mag_pos_unfold il e_def)
  also have "\<dots> = of_int (m * 2 ^ d) * pow2 e"
    by (simp only: q round_half_even_of_int)
  also have "\<dots> = x" by (simp add: x_def pk)
  finally show ?thesis by (simp add: x_def)
qed

lemma round_mag_repr:
  assumes "0 \<le> x"
  shows "is_float_mag (round_mag x)"
proof (cases "x = 0")
  case True
  have "(0::rat) = of_int 0 * pow2 0" by simp
  then show ?thesis unfolding is_float_mag_def True round_mag_zero by fastforce
next
  case False
  with assms have xpos: "0 < x" by simp
  define e where "e = max (ilog2 x) (- 1022) - 52"
  define y where "y = x / pow2 e"
  define M where "M = round_half_even y"
  have fx: "round_mag x = of_int M * pow2 e"
    using xpos by (simp add: round_mag_pos_unfold e_def y_def M_def)
  have e1074: "- 1074 \<le> e" by (simp add: e_def)
  have "ilog2 x + 1 \<le> e + 53" by (simp add: e_def)
  then have "pow2 (ilog2 x + 1) \<le> pow2 (e + 53)" by (rule pow2_mono)
  then have xb: "x < pow2 (e + 53)" using ilog2_bounds[OF xpos] by linarith
  have c53: "pow2 53 = 2 ^ 53" by (simp add: pow2_def)
  have p53: "pow2 (e + 53) = pow2 e * 2 ^ 53" by (simp only: pow2_add c53)
  have yb: "0 < y" "y < 2 ^ 53"
    using xb xpos pow2_pos[of e] unfolding p53 y_def by (simp_all add: field_simps)
  have "of_int M \<le> y + 1 / 2" "y - 1 / 2 \<le> of_int M"
    using round_half_even_bounds[of y] by (simp_all add: M_def)
  with yb have "(of_int M :: rat) < 2 ^ 53 + 1" "(- 1 :: rat) < of_int M" by linarith+
  then have "(of_int M :: rat) < of_int (2 ^ 53 + 1)" "(of_int (- 1) :: rat) < of_int M"
    by simp_all
  then have Mb: "M < 2 ^ 53 + 1" "- 1 < M" by (simp_all only: of_int_less_iff)
  show ?thesis
  proof (cases "M = 2 ^ 53")
    case True
    have "round_mag x = of_int 1 * pow2 (e + 53)" by (simp add: fx True p53)
    moreover have "- 1074 \<le> e + 53" using e1074 by simp
    ultimately show ?thesis unfolding is_float_mag_def
      by (intro exI[of _ 1] exI[of _ "e + 53"]) simp
  next
    case False
    with Mb have "0 \<le> M" "M < 2 ^ 53" by simp_all
    with fx e1074 show ?thesis unfolding is_float_mag_def by blast
  qed
qed

lemma is_float_mag_nonneg: "is_float_mag r \<Longrightarrow> 0 \<le> r"
  unfolding is_float_mag_def using pow2_pos by (auto simp: zero_le_mult_iff less_imp_le)

lemma round_mag_idem: "is_float_mag r \<Longrightarrow> round_mag r = r"
  unfolding is_float_mag_def using round_mag_exact by blast

lemma is_float_mag_times_pow2: "is_float_mag r \<Longrightarrow> is_float_mag (r * 2 ^ n)"
proof -
  assume "is_float_mag r"
  then obtain m k where r: "r = of_int m * pow2 k" "0 \<le> m" "m < 2 ^ 53" "- 1074 \<le> k"
    unfolding is_float_mag_def by blast
  have "r * 2 ^ n = of_int m * pow2 (k + int n)" by (simp add: r(1) pow2_add pow2_nat)
  moreover have "- 1074 \<le> k + int n" using r(4) by simp
  ultimately show ?thesis unfolding is_float_mag_def using r(2,3) by blast
qed

lemma round64_nonneg_cases:
  assumes "0 \<le> x"
  shows "(round64 x = None \<and> pow2 1024 \<le> round_mag x)
       \<or> (round64 x = Some (round_mag x) \<and> round_mag x < pow2 1024)"
  by (simp add: round64_def Let_def)

lemma round64_Some_float:
  assumes "0 \<le> x" "round64 x = Some r"
  shows "is_float_mag r \<and> r < pow2 1024"
proof -
  from assms(2) have "r = round_mag x" "round_mag x < pow2 1024"
    by (simp_all add: round64_def Let_def split: if_splits)
  with round_mag_repr[OF assms(1)] show ?thesis by simp
qed

lemma round64_times_pow2:
  assumes "is_float_mag r"
  shows "round64 (r * 2 ^ n) = (if r * 2 ^ n < pow2 1024 then Some (r * 2 ^ n) else None)"
proof -
  have "round_mag (r * 2 ^ n) = r * 2 ^ n"
    using is_float_mag_times_pow2[OF assms] by (rule round_mag_idem)
  then show ?thesis by (simp add: round64_def Let_def not_less)
qed

lemma pow2_1024_gt: "(2::rat) ^ 53 \<le> pow2 1024"
proof -
  have "pow2 53 \<le> pow2 1024" by (rule pow2_mono) simp
  then show ?thesis by (simp add: pow2_def)
qed

lemma is_float_mag_of_nat: "n < 2 ^ 53 \<Longrightarrow> is_float_mag (of_nat n)"
proof -
  assume "n < 2 ^ 53"
  then have "int n < 2 ^ 53" by simp
  moreover have "(of_nat n :: rat) = of_int (int n) * pow2 0" by (simp add: pow2_def)
  ultimately show ?thesis unfolding is_float_mag_def by (metis of_nat_0_le_iff neg_le_0_iff_le zero_le_numeral)
qed

lemma round64_of_nat: "n < 2 ^ 53 \<Longrightarrow> round64 (of_nat n) = Some (of_nat n)"
proof -
  assume n: "n < 2 ^ 53"
  have "round_mag (of_nat n) = of_nat n" using is_float_mag_of_nat[OF n] by (rule round_mag_idem)
  moreover have "(of_nat n :: rat) < 2 ^ 53"
    using n by (metis of_nat_less_iff of_nat_numeral of_nat_power)
  then have "(of_nat n :: rat) < pow2 1024" using pow2_1024_gt by linarith
  ultimately show ?thesis by (simp add: round64_def Let_def)
qed

lemma round64_of_nat_div_pow2:
  assumes "n < 2 ^ 53" "k \<le> 1074"
  shows "round64 (of_nat n / 2 ^ k) = Some (of_nat n / 2 ^ k)"
proof -
  have "int n < 2 ^ 53" using assms(1) by simp
  moreover have "(of_nat n / 2 ^ k :: rat) = of_int (int n) * pow2 (- int k)"
    by (simp add: pow2_neg_nat)
  moreover have "- 1074 \<le> - int k" using assms(2) by simp
  ultimately have "is_float_mag (of_nat n / 2 ^ k)"
    unfolding is_float_mag_def by (metis of_nat_0_le_iff)
  then have rm: "round_mag (of_nat n / 2 ^ k) = of_nat n / 2 ^ k" by (rule round_mag_idem)
  have "(of_nat n :: rat) < 2 ^ 53"
    using assms(1) by (metis of_nat_less_iff of_nat_numeral of_nat_power)
  moreover have "(of_nat n / 2 ^ k :: rat) \<le> of_nat n / 1"
    by (intro divide_left_mono) simp_all
  ultimately have "(of_nat n / 2 ^ k :: rat) < 2 ^ 53" by simp
  then have "(of_nat n / 2 ^ k :: rat) < pow2 1024" using pow2_1024_gt by linarith
  with rm show ?thesis by (simp add: round64_def Let_def)
qed

lemma round_mag_error:
  assumes "1 \<le> x"
  shows "\<bar>round_mag x - x\<bar> \<le> x / 2 ^ 53"
proof -
  have xpos: "0 < x" using assms by simp
  have "pow2 0 \<le> x" using assms by (simp add: pow2_def)
  have il0: "0 \<le> ilog2 x"
  proof (rule ccontr)
    assume "\<not> 0 \<le> ilog2 x"
    then have "ilog2 x + 1 \<le> 0" by simp
    then have "pow2 (ilog2 x + 1) \<le> pow2 0" by (rule pow2_mono)
    with ilog2_bounds[OF xpos] assms show False by (simp add: pow2_def)
  qed
  define s where "s = pow2 (ilog2 x - 52)"
  define r where "r = (of_int (round_half_even (x / s)) :: rat)"
  have spos: "0 < s" by (simp add: s_def)
  have mx: "max (ilog2 x) (- 1022) = ilog2 x" using il0 by simp
  have fx: "round_mag x = r * s" using xpos by (simp add: round_mag_pos_unfold mx s_def r_def)
  have "r \<le> x / s + 1 / 2" "x / s - 1 / 2 \<le> r"
    using round_half_even_bounds[of "x / s"] by (simp_all add: r_def)
  then have "\<bar>r - x / s\<bar> \<le> 1 / 2" by linarith
  then have "\<bar>r - x / s\<bar> * s \<le> 1 / 2 * s" using spos by (intro mult_right_mono) simp_all
  moreover have "\<bar>r - x / s\<bar> * s = \<bar>r * s - x\<bar>"
  proof -
    have "\<bar>r - x / s\<bar> * s = \<bar>(r - x / s) * s\<bar>" using spos by (simp add: abs_mult)
    also have "(r - x / s) * s = r * s - x" using spos by (simp add: field_simps)
    finally show ?thesis .
  qed
  ultimately have e1: "\<bar>round_mag x - x\<bar> \<le> s / 2" by (simp add: fx)
  have "s = pow2 (ilog2 x) * pow2 (- 52)" unfolding s_def by (simp flip: pow2_add)
  also have "pow2 (- 52) = 1 / 2 ^ 52" by (simp add: pow2_def)
  finally have "s = pow2 (ilog2 x) / 2 ^ 52" by simp
  moreover have "pow2 (ilog2 x) \<le> x" using ilog2_bounds[OF xpos] by simp
  ultimately have "s \<le> x / 2 ^ 52" by (simp add: divide_right_mono)
  then have "s / 2 \<le> x / 2 ^ 53" by simp
  with e1 show ?thesis by linarith
qed

subsection \<open>Strings\<close>

text \<open>
  A string is a list of ASCII characters: a character from \<open>0x80\<close> on stands for no Python
  character. On ASCII, \<^verbatim>\<open>str.upper\<close> changes the letters a to z only, the decimal digits are
  0 to 9, and the whitespace of \<^verbatim>\<open>str.split\<close>, \<^verbatim>\<open>str.strip\<close> and \<^verbatim>\<open>float\<close> is the characters
  \<open>0x09\<close> to \<open>0x0D\<close>, \<open>0x1C\<close> to \<open>0x1F\<close> and the space.
\<close>

definition is_digit :: "char \<Rightarrow> bool" where
  "is_digit c = (c \<in> set ''0123456789'')"

definition digit_val :: "char \<Rightarrow> nat" where
  "digit_val c = (case map_of (zip ''0123456789'' [0, 1, 2, 3, 4, 5, 6, 7, 8, 9]) c of
                    Some d \<Rightarrow> d | None \<Rightarrow> 0)"

definition digit_char :: "nat \<Rightarrow> char" where
  "digit_char d = ''0123456789'' ! (d mod 10)"

definition py_upper_char :: "char \<Rightarrow> char" where
  "py_upper_char c =
     (case map_of (zip ''abcdefghijklmnopqrstuvwxyz'' ''ABCDEFGHIJKLMNOPQRSTUVWXYZ'') c of
        Some u \<Rightarrow> u | None \<Rightarrow> c)"

definition py_lower_char :: "char \<Rightarrow> char" where
  "py_lower_char c =
     (case map_of (zip ''ABCDEFGHIJKLMNOPQRSTUVWXYZ'' ''abcdefghijklmnopqrstuvwxyz'') c of
        Some u \<Rightarrow> u | None \<Rightarrow> c)"

definition py_upper :: "string \<Rightarrow> string" where
  "py_upper s = map py_upper_char s"

definition py_lower :: "string \<Rightarrow> string" where
  "py_lower s = map py_lower_char s"

fun py_contains :: "string \<Rightarrow> string \<Rightarrow> bool" where
  \<comment> \<open>\<^verbatim>\<open>sub in s\<close>\<close>
  "py_contains sub [] = (sub = [])"
| "py_contains sub (c # cs) = (take (length sub) (c # cs) = sub \<or> py_contains sub cs)"

function py_replace :: "string \<Rightarrow> string \<Rightarrow> string \<Rightarrow> string" where
  \<comment> \<open>\<^verbatim>\<open>s.replace(old, new)\<close> for a non-empty \<open>old\<close>: leftmost occurrences, not overlapping\<close>
  "py_replace old new [] = []"
| "py_replace old new (c # cs) =
     (if old \<noteq> [] \<and> take (length old) (c # cs) = old
      then new @ py_replace old new (drop (length old) (c # cs))
      else c # py_replace old new cs)"
  by pat_completeness auto
termination
  by (relation "measure (\<lambda>(old, new, s). length s)") (auto simp: neq_Nil_conv)

definition is_space :: "char \<Rightarrow> bool" where
  "is_space c =
     (c \<in> set [CHR 0x09, CHR 0x0A, CHR 0x0B, CHR 0x0C, CHR 0x0D,
                CHR 0x1C, CHR 0x1D, CHR 0x1E, CHR 0x1F, CHR 0x20])"

function py_split :: "string \<Rightarrow> string list" where
  \<comment> \<open>\<^verbatim>\<open>s.split()\<close>: the maximal runs of characters that are not whitespace\<close>
  "py_split s =
     (case dropWhile is_space s of
        [] \<Rightarrow> []
      | c # cs \<Rightarrow> takeWhile (\<lambda>x. \<not> is_space x) (c # cs)
                 # py_split (dropWhile (\<lambda>x. \<not> is_space x) (c # cs)))"
  by pat_completeness auto
termination
proof (relation "measure length")
  fix s c cs
  assume a: "dropWhile is_space s = c # cs"
  then have "\<not> is_space c" by (metis hd_dropWhile list.sel(1) list.distinct(1))
  then have "length (dropWhile (\<lambda>x. \<not> is_space x) (c # cs)) \<le> length cs"
    by (simp add: length_dropWhile_le)
  moreover have "length (c # cs) \<le> length s"
    using a length_dropWhile_le[of is_space s] by simp
  ultimately show "(dropWhile (\<lambda>x. \<not> is_space x) (c # cs), s) \<in> measure length"
    by simp
qed simp

declare py_split.simps [simp del]

definition py_strip :: "string \<Rightarrow> string" where
  "py_strip s = rev (dropWhile is_space (rev (dropWhile is_space s)))"

definition digits_val :: "string \<Rightarrow> nat" where
  "digits_val ds = foldl (\<lambda>a c. 10 * a + digit_val c) 0 ds"

function str_nat :: "nat \<Rightarrow> string" where
  \<comment> \<open>\<^verbatim>\<open>str(n)\<close>\<close>
  "str_nat n = (if n < 10 then [digit_char n] else str_nat (n div 10) @ [digit_char (n mod 10)])"
  by pat_completeness auto
termination
  by (relation "measure id") auto

declare str_nat.simps [simp del]

definition hex_char :: "nat \<Rightarrow> char" where
  "hex_char d = ''0123456789abcdef'' ! (d mod 16)"

definition repr_char :: "char \<Rightarrow> char \<Rightarrow> string" where
  "repr_char q c =
     (if c = CHR 0x5C then [CHR 0x5C, CHR 0x5C]
      else if c = q then [CHR 0x5C, q]
      else if c = CHR 0x09 then [CHR 0x5C, CHR ''t'']
      else if c = CHR 0x0A then [CHR 0x5C, CHR ''n'']
      else if c = CHR 0x0D then [CHR 0x5C, CHR ''r'']
      else if (of_char c :: nat) < 32 \<or> (of_char c :: nat) = 127
      then [CHR 0x5C, CHR ''x'', hex_char ((of_char c :: nat) div 16), hex_char (of_char c :: nat)]
      else [c])"

definition py_repr :: "string \<Rightarrow> string" where
  \<comment> \<open>\<^verbatim>\<open>repr(s)\<close>: double quotes only when \<open>s\<close> has a single quote and no double quote\<close>
  "py_repr s =
     (let q = (if CHR 0x27 \<in> set s \<and> CHR 0x22 \<notin> set s then CHR 0x22 else CHR 0x27)
      in [q] @ concat (map (repr_char q) s) @ [q])"

text \<open>
  \<^verbatim>\<open>float(s)\<close> strips the whitespace around \<open>s\<close> and reads an optional sign, then
  \<^verbatim>\<open>inf\<close>, \<^verbatim>\<open>infinity\<close> or \<^verbatim>\<open>nan\<close> in any case, or a decimal number with an optional
  exponent. A single underscore may stand between two digits. The value is the decimal
  number, rounded once.
\<close>

fun digit_run :: "string \<Rightarrow> string \<times> string" where
  \<comment> \<open>what follows the first digit of a run: digits, each with at most one underscore before it\<close>
  "digit_run [] = ([], [])"
| "digit_run [c] = (if is_digit c then ([c], []) else ([], [c]))"
| "digit_run (c # d # cs) =
     (if is_digit c then (case digit_run (d # cs) of (ds, r) \<Rightarrow> (c # ds, r))
      else if c = CHR ''_'' \<and> is_digit d then (case digit_run cs of (ds, r) \<Rightarrow> (d # ds, r))
      else ([], c # d # cs))"

definition digitpart :: "string \<Rightarrow> string \<times> string" where
  \<comment> \<open>the digits of the longest run at the start of \<open>s\<close> (none when \<open>s\<close> starts with no digit),
      and the rest\<close>
  "digitpart s =
     (case s of
        [] \<Rightarrow> ([], [])
      | c # cs \<Rightarrow> if is_digit c then (case digit_run cs of (ds, r) \<Rightarrow> (c # ds, r)) else ([], s))"

definition parse_sign :: "string \<Rightarrow> bool \<times> string" where
  "parse_sign s =
     (case s of
        [] \<Rightarrow> (False, [])
      | c # cs \<Rightarrow> if c = CHR ''-'' then (True, cs) else if c = CHR ''+'' then (False, cs)
                 else (False, s))"

definition parse_number :: "string \<Rightarrow> (string \<times> nat \<times> string) option" where
  \<comment> \<open>the digits of the number without its point, how many of them follow the point, the rest\<close>
  "parse_number s =
     (case digitpart s of
        (ip, r1) \<Rightarrow>
          (case r1 of
             [] \<Rightarrow> if ip = [] then None else Some (ip, 0, [])
           | c # r1' \<Rightarrow>
               if c = CHR ''.''
               then (case digitpart r1' of
                       (fp, r2) \<Rightarrow> if ip = [] \<and> fp = [] then None
                                   else Some (ip @ fp, length fp, r2))
               else if ip = [] then None else Some (ip, 0, r1)))"

definition parse_exponent :: "string \<Rightarrow> (int \<times> string) option" where
  "parse_exponent s =
     (case s of
        [] \<Rightarrow> Some (0, [])
      | c # cs \<Rightarrow>
          if c = CHR ''e'' \<or> c = CHR ''E''
          then (case parse_sign cs of
                  (neg, r) \<Rightarrow>
                    (case digitpart r of
                       (ds, r') \<Rightarrow>
                         if ds = [] then None
                         else Some (if neg then - int (digits_val ds) else int (digits_val ds), r')))
          else Some (0, s))"

definition pow10 :: "int \<Rightarrow> rat" where
  "pow10 e = (if 0 \<le> e then 10 ^ nat e else 1 / 10 ^ nat (- e))"

definition py_float :: "string \<Rightarrow> py_error + pyfloat" where
  "py_float s =
     (let err = Inl (ValueError (''could not convert string to float: '' @ py_repr s))
      in case parse_sign (py_strip s) of
           (neg, u) \<Rightarrow>
             if py_lower u = ''inf'' \<or> py_lower u = ''infinity'' then Inr (Num neg None)
             else if py_lower u = ''nan'' then Inr NaN
             else (case parse_number u of
                     None \<Rightarrow> err
                   | Some (ds, fr, r) \<Rightarrow>
                       (case parse_exponent r of
                          Some (ex, []) \<Rightarrow>
                            Inr (Num neg (round64 (of_nat (digits_val ds) * pow10 (ex - int fr))))
                        | _ \<Rightarrow> err)))"

definition py_range :: "int \<Rightarrow> int \<Rightarrow> int \<Rightarrow> int list" where
  \<comment> \<open>\<^verbatim>\<open>range(start, stop, step)\<close> for \<open>step \<noteq> 0\<close>\<close>
  "py_range start stop step =
     (if 0 < step
      then map (\<lambda>i. start + int i * step) [0..<nat ((stop - start + step - 1) div step)]
      else if step < 0
      then map (\<lambda>i. start + int i * step) [0..<nat ((start - stop - step - 1) div (- step))]
      else [])"

section \<open>\<^verbatim>\<open>ImageProcessor\<close>: the helpers shared by both files\<close>

definition SUPPORTED_FORMATS :: "(string \<times> string) list" where
  "SUPPORTED_FORMATS =
     [(''JPG'', ''JPEG''), (''JPEG'', ''JPEG''), (''PNG'', ''PNG''), (''WEBP'', ''WEBP'')]"

definition convert_to_bytes :: "string \<Rightarrow> py_error + pyfloat" where
  "convert_to_bytes size_str =
     (case py_float (py_replace ''KB'' [] (py_replace ''MB'' [] size_str)) of
        Inl e \<Rightarrow> Inl e
      | Inr sz \<Rightarrow>
          if py_contains ''MB'' (py_upper size_str) then Inr (fmul (fmul sz float_1024) float_1024)
          else if py_contains ''KB'' (py_upper size_str) then Inr (fmul sz float_1024)
          else Inr sz)"

definition format_2f :: "pyfloat \<Rightarrow> string" where
  \<comment> \<open>\<^verbatim>\<open>f"{x:.2f}"\<close>: the exact value of the float, rounded to hundredths, ties to even\<close>
  "format_2f x =
     (case x of
        NaN \<Rightarrow> ''nan''
      | Num s None \<Rightarrow> (if s then ''-inf'' else ''inf'')
      | Num s (Some m) \<Rightarrow>
          (let h = nat (round_half_even (m * 100))
           in (if s then ''-'' else [])
              @ str_nat (h div 100) @ ''.'' @ [digit_char (h mod 100 div 10), digit_char (h mod 10)]))"

definition get_size_in_appropriate_unit :: "nat \<Rightarrow> py_error + string" where
  \<comment> \<open>on an \<^verbatim>\<open>int\<close>, which is what the handler passes: \<^verbatim>\<open>len(...)\<close>\<close>
  "get_size_in_appropriate_unit bytes_size =
     (case int_truediv (int bytes_size) 1024 of
        Inl e \<Rightarrow> Inl e
      | Inr kb_size \<Rightarrow>
          if int_le_float 1024 kb_size
          then (case fdiv kb_size float_1024 of
                  Inl e \<Rightarrow> Inl e
                | Inr mb_size \<Rightarrow> Inr (format_2f mb_size @ ''MB''))
          else Inr (format_2f kb_size @ ''KB''))"

section \<open>The size pattern\<close>

text \<open>
  \<^verbatim>\<open>re.match(size_pattern, size_range, re.IGNORECASE)\<close> is run by a backtracking matcher for
  the constructs the pattern uses. \<open>Digits\<close> is \<^verbatim>\<open>\d+\<close>, \<open>Opt\<close> is \<^verbatim>\<open>(?:...)?\<close>, \<open>Alt\<close> is
  \<^verbatim>\<open>|\<close>, \<open>Group\<close> is a capturing group. Every construct is greedy and gives characters back
  when the rest of the pattern fails, and \<^verbatim>\<open>re.match\<close> anchors the match at the start of the
  string only.
\<close>

datatype regex = Lit string | Digits | Seq regex regex | Alt regex regex | Opt regex | Group regex

fun greedy :: "(char \<Rightarrow> bool) \<Rightarrow> string \<Rightarrow> (string \<Rightarrow> 'r option) \<Rightarrow> 'r option" where
  "greedy P [] k = k []"
| "greedy P (c # cs) k =
     (if P c then (case greedy P cs k of Some r \<Rightarrow> Some r | None \<Rightarrow> k (c # cs)) else k (c # cs))"

fun re_m :: "bool \<Rightarrow> regex \<Rightarrow> string \<Rightarrow> string list
    \<Rightarrow> (string \<Rightarrow> string list \<Rightarrow> 'r option) \<Rightarrow> 'r option" where
  "re_m ic (Lit l) s caps k =
     (if (if ic then py_lower (take (length l) s) = py_lower l else take (length l) s = l)
      then k (drop (length l) s) caps else None)"
| "re_m ic Digits [] caps k = None"
| "re_m ic Digits (c # cs) caps k =
     (if is_digit c then greedy is_digit cs (\<lambda>s'. k s' caps) else None)"
| "re_m ic (Seq a b) s caps k = re_m ic a s caps (\<lambda>s' caps'. re_m ic b s' caps' k)"
| "re_m ic (Alt a b) s caps k =
     (case re_m ic a s caps k of Some r \<Rightarrow> Some r | None \<Rightarrow> re_m ic b s caps k)"
| "re_m ic (Opt a) s caps k =
     (case re_m ic a s caps k of Some r \<Rightarrow> Some r | None \<Rightarrow> k s caps)"
| "re_m ic (Group a) s caps k =
     re_m ic a s caps (\<lambda>s' caps'. k s' (caps' @ [take (length s - length s') s]))"

definition re_match :: "bool \<Rightarrow> regex \<Rightarrow> string \<Rightarrow> string list option" where
  \<comment> \<open>\<^verbatim>\<open>re.match(pattern, s, flags)\<close> followed by \<^verbatim>\<open>.groups()\<close>; \<open>None\<close> is no match\<close>
  "re_match ic r s = re_m ic r s [] (\<lambda>s' caps. Some caps)"

definition size_unit :: regex where
  \<comment> \<open>\<^verbatim>\<open>\d+(?:\.\d+)?(?:MB|KB)\<close>\<close>
  "size_unit = Seq Digits (Seq (Opt (Seq (Lit ''.'') Digits)) (Alt (Lit ''MB'') (Lit ''KB'')))"

definition size_pattern :: regex where
  \<comment> \<open>\<^verbatim>\<open>(\d+(?:\.\d+)?(?:MB|KB))-(\d+(?:\.\d+)?(?:MB|KB))\<close>\<close>
  "size_pattern = Seq (Group size_unit) (Seq (Lit ''-'') (Group size_unit))"

section \<open>The message handlers\<close>

text \<open>
  The handlers are the same in both files. The Telegram client \<^verbatim>\<open>bot\<close> is outside the
  repository: its calls are a parameter, each call returns its result or raises. What a handler
  does is the list of calls that succeeded, the exception that escapes it (if any), and the
  new \<^verbatim>\<open>user_states\<close>. Log lines are not part of the model. The texts sent to the user hold
  a few pictographs, which are not ASCII: each is written as its name between colons.
\<close>

record pending =
  file_id :: string
  waiting_for :: string
  original_size :: pyfloat

type_synonym user_states = "int \<rightharpoonup> pending"

record bot_api =
  get_file :: "string \<Rightarrow> py_error + string \<times> nat"
  download_file :: "string \<Rightarrow> py_error + bytes"
  reply_to :: "string \<Rightarrow> py_error + int"
  delete_message :: "int \<Rightarrow> py_error + unit"
  send_document :: "bytes \<Rightarrow> string \<Rightarrow> string \<Rightarrow> py_error + unit"
  edit_message_text :: "string \<Rightarrow> int \<Rightarrow> py_error + unit"
  now_strftime :: string \<comment> \<open>\<^verbatim>\<open>datetime.now().strftime("%Y%m%d_%H%M%S")\<close>\<close>

datatype action =
    Reply string
  | Delete_Message int
  | Send_Document bytes string string
  | Edit_Message_Text string int

type_synonym 'a io = "action list \<times> (py_error + 'a)"

definition io_call :: "(py_error + 'a) \<Rightarrow> action \<Rightarrow> 'a io" where
  \<comment> \<open>one call of the client: it raises, or it is done and recorded\<close>
  "io_call r a = (case r of Inl e \<Rightarrow> ([], Inl e) | Inr x \<Rightarrow> ([a], Inr x))"

definition io_bind :: "'a io \<Rightarrow> ('a \<Rightarrow> 'b io) \<Rightarrow> 'b io" where
  "io_bind m f =
     (case m of
        (tr, Inl e) \<Rightarrow> (tr, Inl e)
      | (tr, Inr x) \<Rightarrow> (case f x of (tr', r) \<Rightarrow> (tr @ tr', r)))"

definition io_except :: "'a io \<Rightarrow> (py_error \<Rightarrow> 'a io) \<Rightarrow> 'a io" where
  \<comment> \<open>\<^verbatim>\<open>try: m except ... as e: h(e)\<close>\<close>
  "io_except m h =
     (case m of
        (tr, Inl e) \<Rightarrow> (case h e of (tr', r) \<Rightarrow> (tr @ tr', r))
      | (tr, Inr x) \<Rightarrow> (tr, Inr x))"

definition io_done :: "'a io \<Rightarrow> unit io" where
  \<comment> \<open>the result of the last call is dropped\<close>
  "io_done m = io_bind m (\<lambda>_. ([], Inr ()))"

definition py_str_error :: "py_error \<Rightarrow> string" where
  \<comment> \<open>\<^verbatim>\<open>str(e)\<close>\<close>
  "py_str_error e = (case e of ValueError m \<Rightarrow> m | Exception m \<Rightarrow> m)"

definition cross_mark :: string where
  \<comment> \<open>the pictograph that starts every error reply\<close>
  "cross_mark = '':cross_mark:''"

definition py_join :: "string \<Rightarrow> string list \<Rightarrow> string" where
  \<comment> \<open>\<^verbatim>\<open>sep.join(xs)\<close>\<close>
  "py_join sep xs = (case xs of [] \<Rightarrow> [] | x # ys \<Rightarrow> x @ concat (map (\<lambda>y. sep @ y) ys))"

definition awaiting_size_format :: "user_states \<Rightarrow> int \<Rightarrow> bool" where
  \<comment> \<open>the filter of \<^verbatim>\<open>handle_conversion_request\<close>\<close>
  "awaiting_size_format st user_id =
     (case st user_id of None \<Rightarrow> False | Some p \<Rightarrow> waiting_for p = ''size_format'')"

definition photo_error_text :: string where
  "photo_error_text = cross_mark @ '' Error processing your photo. Please try again.''"

definition photo_prompt :: "pyfloat \<Rightarrow> string" where
  "photo_prompt file_size =
     '':straight_ruler: Current image size: '' @ format_2f file_size @ ''KB'' @ [CHR 0x0A]
     @ ''Please specify the target size range and format'' @ [CHR 0x0A]
     @ ''Format: <size_range> <format>'' @ [CHR 0x0A]
     @ ''Examples:'' @ [CHR 0x0A] @ ''2MB-3MB JPG'' @ [CHR 0x0A] @ ''500KB-1MB PNG''"

definition handle_photo :: "bot_api \<Rightarrow> int \<Rightarrow> string \<Rightarrow> user_states \<Rightarrow> unit io \<times> user_states" where
  \<comment> \<open>\<open>fid\<close> is \<^verbatim>\<open>message.photo[-1].file_id\<close>\<close>
  "handle_photo B user_id fid st =
     (case get_file B fid of
        Inl e \<Rightarrow> (io_done (io_call (reply_to B photo_error_text) (Reply photo_error_text)), st)
      | Inr (path, size_in_bytes) \<Rightarrow>
          (case int_truediv (int size_in_bytes) 1024 of
             Inl e \<Rightarrow> (io_done (io_call (reply_to B photo_error_text) (Reply photo_error_text)), st)
           | Inr file_size \<Rightarrow>
               (io_except
                  (io_done (io_call (reply_to B (photo_prompt file_size))
                     (Reply (photo_prompt file_size))))
                  (\<lambda>e. io_done (io_call (reply_to B photo_error_text) (Reply photo_error_text))),
                st(user_id \<mapsto>
                  \<lparr>file_id = fid, waiting_for = ''size_format'', original_size = file_size\<rparr>))))"

definition parse_request :: "string \<Rightarrow> py_error + pyfloat \<times> pyfloat \<times> string" where
  \<comment> \<open>the first block of \<^verbatim>\<open>handle_conversion_request\<close>, up to the check of the two sizes\<close>
  "parse_request text =
     (case py_split text of
        [size_range, fmt] \<Rightarrow>
          (let output_format = py_upper fmt
           in if map_of SUPPORTED_FORMATS output_format = None
              then Inl (ValueError (''Unsupported format. Please use: ''
                          @ py_join '', '' (map fst SUPPORTED_FORMATS)))
              else (case re_match True size_pattern size_range of
                      Some [min_size_str, max_size_str] \<Rightarrow>
                        (case convert_to_bytes min_size_str of
                           Inl e \<Rightarrow> Inl e
                         | Inr min_size_bytes \<Rightarrow>
                             (case convert_to_bytes max_size_str of
                                Inl e \<Rightarrow> Inl e
                              | Inr max_size_bytes \<Rightarrow>
                                  if float_le max_size_bytes min_size_bytes
                                  then Inl (ValueError ''Minimum size must be less than maximum size.'')
                                  else Inr (min_size_bytes, max_size_bytes, output_format)))
                    | _ \<Rightarrow>
                        Inl (ValueError ''Invalid size range format. Examples: 2MB-3MB, 500KB-1MB'')))
      | _ \<Rightarrow> Inl (ValueError ''Invalid format. Please use: <size_range> <format>''))"

definition no_fit_text :: string where
  "no_fit_text =
     cross_mark @ '' Could not process the image within the given constraints.'' @ [CHR 0x0A]
     @ ''Try a different size range or format.''"

definition converted_filename :: "bot_api \<Rightarrow> string \<Rightarrow> string" where
  "converted_filename B output_format =
     ''converted_'' @ now_strftime B @ ''.'' @ py_lower output_format"

definition success_caption :: "string \<Rightarrow> string \<Rightarrow> string \<Rightarrow> string" where
  "success_caption original_str final_str output_format =
     '':check_mark_button: Conversion successful!'' @ [CHR 0x0A]
     @ '':bar_chart: Original size: '' @ original_str @ [CHR 0x0A]
     @ '':bar_chart: Final size: '' @ final_str @ [CHR 0x0A]
     @ '':paperclip: Format: '' @ output_format"

definition process_and_send ::
  "(bytes \<Rightarrow> pyfloat \<times> pyfloat \<Rightarrow> string \<Rightarrow> py_error + bytes option) \<Rightarrow> bot_api
    \<Rightarrow> bytes \<Rightarrow> pyfloat \<times> pyfloat \<Rightarrow> string \<Rightarrow> int \<Rightarrow> unit io" where
  \<comment> \<open>the inner \<^verbatim>\<open>try\<close> of \<^verbatim>\<open>handle_conversion_request\<close>; the empty byte string is falsy\<close>
  "process_and_send PI B downloaded_file target output_format status_message =
     io_except
       (case PI downloaded_file target output_format of
          Inl e \<Rightarrow> ([], Inl e)
        | Inr processed_image \<Rightarrow>
            (case processed_image of
               Some b \<Rightarrow>
                 if b \<noteq> []
                 then (case get_size_in_appropriate_unit (length b) of
                         Inl e \<Rightarrow> ([], Inl e)
                       | Inr final_str \<Rightarrow>
                           (case get_size_in_appropriate_unit (length downloaded_file) of
                              Inl e \<Rightarrow> ([], Inl e)
                            | Inr original_str \<Rightarrow>
                                io_bind
                                  (io_call (delete_message B status_message)
                                     (Delete_Message status_message))
                                  (\<lambda>_. io_call
                                     (send_document B b (converted_filename B output_format)
                                        (success_caption original_str final_str output_format))
                                     (Send_Document b (converted_filename B output_format)
                                        (success_caption original_str final_str output_format)))))
                 else io_call (edit_message_text B no_fit_text status_message)
                        (Edit_Message_Text no_fit_text status_message)
             | None \<Rightarrow>
                 io_call (edit_message_text B no_fit_text status_message)
                   (Edit_Message_Text no_fit_text status_message)))
       (\<lambda>e. io_call
          (edit_message_text B (cross_mark @ '' Error processing image: '' @ py_str_error e)
             status_message)
          (Edit_Message_Text (cross_mark @ '' Error processing image: '' @ py_str_error e)
             status_message))"

definition handle_conversion_request ::
  "(bytes \<Rightarrow> pyfloat \<times> pyfloat \<Rightarrow> string \<Rightarrow> py_error + bytes option) \<Rightarrow> bot_api
    \<Rightarrow> int \<Rightarrow> string \<Rightarrow> user_states \<Rightarrow> unit io \<times> user_states" where
  \<comment> \<open>\<open>PI\<close> is \<^verbatim>\<open>ImageProcessor.process_image\<close> of the file the handler is in. The pair is what
      the \<^verbatim>\<open>try\<close> with its two \<^verbatim>\<open>except\<close> clauses does, and what \<^verbatim>\<open>finally\<close> leaves.\<close>
  "handle_conversion_request PI B user_id text st =
     (io_except
        (case parse_request text of
           Inl e \<Rightarrow> ([], Inl e)
         | Inr (min_size_bytes, max_size_bytes, output_format) \<Rightarrow>
             io_bind
               (io_call (reply_to B '':gear: Processing your image...'') (Reply '':gear: Processing your image...''))
               (\<lambda>status_message.
                  case st user_id of
                    None \<Rightarrow> ([], Inl (Exception ''KeyError''))
                  | Some p \<Rightarrow>
                      (case get_file B (file_id p) of
                         Inl e \<Rightarrow> ([], Inl e)
                       | Inr (path, _) \<Rightarrow>
                           (case download_file B path of
                              Inl e \<Rightarrow> ([], Inl e)
                            | Inr downloaded_file \<Rightarrow>
                                process_and_send PI B downloaded_file
                                  (min_size_bytes, max_size_bytes) output_format status_message))))
        (\<lambda>e. case e of
           ValueError m \<Rightarrow>
             io_done (io_call (reply_to B (cross_mark @ '' '' @ m)) (Reply (cross_mark @ '' '' @ m)))
         | Exception m \<Rightarrow>
             io_done (io_call (reply_to B (cross_mark @ '' An error occurred. Please try again.''))
                        (Reply (cross_mark @ '' An error occurred. Please try again.'')))),
      if st user_id \<noteq> None then st(user_id := None) else st)"

section \<open>Facts about the helpers\<close>

definition is_float :: "pyfloat \<Rightarrow> bool" where
  \<comment> \<open>the values a float can have\<close>
  "is_float v =
     (case v of Num s (Some m) \<Rightarrow> is_float_mag m \<and> m < pow2 1024 | _ \<Rightarrow> True)"

definition times_pow2 :: "pyfloat \<Rightarrow> nat \<Rightarrow> pyfloat" where
  \<comment> \<open>a float times \<open>2 ^ n\<close>, exactly; infinite when the product does not fit\<close>
  "times_pow2 v n =
     (case v of
        NaN \<Rightarrow> NaN
      | Num s None \<Rightarrow> Num s None
      | Num s (Some m) \<Rightarrow> if m * 2 ^ n < pow2 1024 then Num s (Some (m * 2 ^ n)) else Num s None)"

definition float_char :: "char \<Rightarrow> bool" where
  \<comment> \<open>the characters of the strings that \<^verbatim>\<open>float\<close> reads\<close>
  "float_char c =
     (is_space c \<or> is_digit c \<or> c \<in> set ''+-._eE'' \<or> py_lower_char c \<in> set ''infinityan'')"

lemma fmul_1024: "is_float v \<Longrightarrow> fmul v float_1024 = times_pow2 v 10"
proof (cases v)
  case NaN
  then show ?thesis by (simp add: fmul_def times_pow2_def)
next
  case (Num s mo)
  assume f: "is_float v"
  show ?thesis
  proof (cases mo)
    case None
    with Num show ?thesis by (simp add: fmul_def times_pow2_def)
  next
    case (Some m)
    with f Num have "is_float_mag m" by (simp add: is_float_def)
    from round64_times_pow2[OF this, of 10]
    show ?thesis using Num Some by (simp add: fmul_def times_pow2_def)
  qed
qed

lemma is_float_times_pow2: "is_float v \<Longrightarrow> is_float (times_pow2 v n)"
proof (cases v)
  case NaN
  then show ?thesis by (simp add: is_float_def times_pow2_def)
next
  case (Num s mo)
  assume f: "is_float v"
  show ?thesis
  proof (cases mo)
    case None
    with Num show ?thesis by (simp add: is_float_def times_pow2_def)
  next
    case (Some m)
    with f Num have "is_float_mag m" by (simp add: is_float_def)
    then have "is_float_mag (m * 2 ^ n)" by (rule is_float_mag_times_pow2)
    then show ?thesis using Num Some by (simp add: is_float_def times_pow2_def)
  qed
qed

lemma times_pow2_twice: "is_float v \<Longrightarrow> times_pow2 (times_pow2 v 10) 10 = times_pow2 v 20"
proof (cases v)
  case NaN
  then show ?thesis by (simp add: times_pow2_def)
next
  case (Num s mo)
  assume f: "is_float v"
  show ?thesis
  proof (cases mo)
    case None
    with Num show ?thesis by (simp add: times_pow2_def)
  next
    case (Some m)
    with f Num have "0 \<le> m" using is_float_mag_nonneg by (simp add: is_float_def)
    then have "m * 2 ^ 10 \<le> m * 2 ^ 20" by (intro mult_left_mono) simp_all
    moreover have "m * 2 ^ 10 * 2 ^ 10 = m * 2 ^ 20" by simp
    ultimately show ?thesis using Num Some by (auto simp: times_pow2_def)
  qed
qed

lemma fmul_1024_twice:
  assumes "is_float v"
  shows "fmul (fmul v float_1024) float_1024 = times_pow2 v 20"
proof -
  have "fmul (fmul v float_1024) float_1024 = fmul (times_pow2 v 10) float_1024"
    by (simp only: fmul_1024[OF assms])
  also have "\<dots> = times_pow2 (times_pow2 v 10) 10"
    by (rule fmul_1024) (rule is_float_times_pow2[OF assms])
  also have "\<dots> = times_pow2 v 20" by (rule times_pow2_twice[OF assms])
  finally show ?thesis .
qed

lemma digit_run_split:
  "digit_run s = (ds, r) \<Longrightarrow> \<exists>p. s = p @ r \<and> (\<forall>c\<in>set p. float_char c)"
proof (induction s arbitrary: ds r rule: digit_run.induct)
  case 1
  then show ?case by simp
next
  case (2 c)
  show ?case
  proof (cases "is_digit c")
    case True
    with 2 have "r = []" by simp
    with True show ?thesis by (intro exI[of _ "[c]"]) (simp add: float_char_def)
  next
    case False
    with 2 have "r = [c]" by simp
    then show ?thesis by (intro exI[of _ "[]"]) simp
  qed
next
  case (3 c d cs)
  show ?case
  proof (cases "is_digit c")
    case True
    obtain ds' r' where dr: "digit_run (d # cs) = (ds', r')" by (cases "digit_run (d # cs)")
    with 3(3) True have rr: "r = r'" by simp
    from "3.IH"(1)[OF True dr] obtain p where p: "d # cs = p @ r'" "\<forall>c\<in>set p. float_char c"
      by blast
    show ?thesis
      using p True rr by (intro exI[of _ "c # p"]) (simp add: float_char_def)
  next
    case False
    show ?thesis
    proof (cases "c = CHR ''_'' \<and> is_digit d")
      case True
      obtain ds' r' where dr: "digit_run cs = (ds', r')" by (cases "digit_run cs")
      with 3(3) False True have rr: "r = r'" by simp
      from "3.IH"(2)[OF False True dr] obtain p where p: "cs = p @ r'" "\<forall>c\<in>set p. float_char c"
        by blast
      have "float_char c" "float_char d" using True by (simp_all add: float_char_def)
      then show ?thesis
        using p rr by (intro exI[of _ "c # d # p"]) auto
    next
      case nb: False
      with 3(3) False have "r = c # d # cs" by auto
      then show ?thesis by (intro exI[of _ "[]"]) simp
    qed
  qed
qed

lemma digitpart_split:
  "digitpart s = (ds, r) \<Longrightarrow> \<exists>p. s = p @ r \<and> (\<forall>c\<in>set p. float_char c)"
proof (cases s)
  case Nil
  assume "digitpart s = (ds, r)"
  with Nil show ?thesis by (simp add: digitpart_def)
next
  case (Cons c cs)
  assume a: "digitpart s = (ds, r)"
  show ?thesis
  proof (cases "is_digit c")
    case True
    obtain ds' r' where dr: "digit_run cs = (ds', r')" by (cases "digit_run cs")
    with a Cons True have rr: "r = r'" by (simp add: digitpart_def)
    from digit_run_split[OF dr] obtain p where p: "cs = p @ r'" "\<forall>c\<in>set p. float_char c"
      by blast
    show ?thesis
      using p True rr Cons by (intro exI[of _ "c # p"]) (simp add: float_char_def)
  next
    case False
    with a Cons have "r = s" by (simp add: digitpart_def)
    then show ?thesis by (intro exI[of _ "[]"]) simp
  qed
qed

lemma parse_sign_split:
  "parse_sign s = (neg, u) \<Longrightarrow> \<exists>p. s = p @ u \<and> (\<forall>c\<in>set p. float_char c)"
proof (cases s)
  case Nil
  assume "parse_sign s = (neg, u)"
  with Nil show ?thesis by (simp add: parse_sign_def)
next
  case (Cons c cs)
  assume a: "parse_sign s = (neg, u)"
  consider "c = CHR ''-''" | "c = CHR ''+''" | "c \<noteq> CHR ''-''" "c \<noteq> CHR ''+''" by blast
  then show ?thesis
  proof cases
    case 1
    with a Cons have "u = cs" by (simp add: parse_sign_def)
    with 1 Cons show ?thesis by (intro exI[of _ "[c]"]) (simp add: float_char_def)
  next
    case 2
    with a Cons have "u = cs" by (simp add: parse_sign_def)
    with 2 Cons show ?thesis by (intro exI[of _ "[c]"]) (simp add: float_char_def)
  next
    case 3
    with a Cons have "u = s" by (simp add: parse_sign_def)
    then show ?thesis by (intro exI[of _ "[]"]) simp
  qed
qed

lemma parse_number_split:
  assumes "parse_number s = Some (ds, fr, r)"
  shows "\<exists>p. s = p @ r \<and> (\<forall>c\<in>set p. float_char c)"
proof -
  obtain ip r1 where d1: "digitpart s = (ip, r1)" by (cases "digitpart s")
  from digitpart_split[OF d1] obtain p1 where p1: "s = p1 @ r1" "\<forall>c\<in>set p1. float_char c"
    by blast
  show ?thesis
  proof (cases r1)
    case Nil
    with assms d1 have "r = []" by (simp add: parse_number_def split: if_splits)
    with p1 Nil show ?thesis by (intro exI[of _ p1]) simp
  next
    case (Cons c r1')
    show ?thesis
    proof (cases "c = CHR ''.''")
      case True
      obtain fp r2 where d2: "digitpart r1' = (fp, r2)" by (cases "digitpart r1'")
      from digitpart_split[OF d2] obtain p2 where p2: "r1' = p2 @ r2" "\<forall>c\<in>set p2. float_char c"
        by blast
      from assms d1 Cons True d2 have "r = r2" by (simp add: parse_number_def split: if_splits)
      moreover have "float_char c" using True by (simp add: float_char_def)
      ultimately show ?thesis
        using p1 p2 Cons by (intro exI[of _ "p1 @ c # p2"]) auto
    next
      case False
      with assms d1 Cons have "r = r1" by (simp add: parse_number_def split: if_splits)
      with p1 show ?thesis by (intro exI[of _ p1]) simp
    qed
  qed
qed

lemma parse_exponent_split:
  assumes "parse_exponent s = Some (ex, r)"
  shows "\<exists>p. s = p @ r \<and> (\<forall>c\<in>set p. float_char c)"
proof (cases s)
  case Nil
  with assms show ?thesis by (simp add: parse_exponent_def)
next
  case (Cons c cs)
  show ?thesis
  proof (cases "c = CHR ''e'' \<or> c = CHR ''E''")
    case True
    then have fc: "float_char c" by (auto simp: float_char_def)
    obtain neg r0 where ps: "parse_sign cs = (neg, r0)" by (cases "parse_sign cs")
    obtain ds r' where dp: "digitpart r0 = (ds, r')" by (cases "digitpart r0")
    from parse_sign_split[OF ps] obtain p1 where p1: "cs = p1 @ r0" "\<forall>c\<in>set p1. float_char c"
      by blast
    from digitpart_split[OF dp] obtain p2 where p2: "r0 = p2 @ r'" "\<forall>c\<in>set p2. float_char c"
      by blast
    from assms Cons True ps dp have "r = r'"
      by (simp add: parse_exponent_def split: if_splits)
    then show ?thesis
      using p1 p2 fc Cons by (intro exI[of _ "c # p1 @ p2"]) auto
  next
    case False
    with assms Cons have "r = s" by (simp add: parse_exponent_def)
    then show ?thesis by (intro exI[of _ "[]"]) simp
  qed
qed

lemma py_strip_chars: "c \<in> set s \<Longrightarrow> c \<in> set (py_strip s) \<or> is_space c"
proof -
  assume c: "c \<in> set s"
  define t where "t = dropWhile is_space s"
  have "set s = set (takeWhile is_space s) \<union> set t"
    unfolding t_def by (simp only: set_append[symmetric] takeWhile_dropWhile_id)
  with c have 1: "c \<in> set t \<or> is_space c" using set_takeWhileD[of c is_space s] by blast
  have "set (rev t) = set (takeWhile is_space (rev t)) \<union> set (dropWhile is_space (rev t))"
    by (simp only: set_append[symmetric] takeWhile_dropWhile_id)
  then have 2: "c \<in> set t \<Longrightarrow> c \<in> set (dropWhile is_space (rev t)) \<or> is_space c"
    using set_takeWhileD[of c is_space "rev t"] by auto
  have "set (py_strip s) = set (dropWhile is_space (rev t))"
    by (simp add: py_strip_def t_def)
  with 1 2 show ?thesis by blast
qed

lemma py_lower_letters:
  assumes "py_lower u = w" "set w \<subseteq> set ''infinityan''" "c \<in> set u"
  shows "float_char c"
proof -
  from assms(1,3) have "py_lower_char c \<in> set w" by (auto simp: py_lower_def)
  with assms(2) show ?thesis unfolding float_char_def by blast
qed

lemma py_float_chars:
  assumes "py_float s = Inr v" "c \<in> set s"
  shows "float_char c"
proof -
  obtain neg u where ps: "parse_sign (py_strip s) = (neg, u)" by (cases "parse_sign (py_strip s)")
  from parse_sign_split[OF ps] obtain p0 where p0: "py_strip s = p0 @ u" "\<forall>c\<in>set p0. float_char c"
    by blast
  have u_ok: "\<forall>c\<in>set u. float_char c"
  proof (cases "py_lower u = ''inf'' \<or> py_lower u = ''infinity'' \<or> py_lower u = ''nan''")
    case True
    then obtain w where w: "py_lower u = w" "set w \<subseteq> set ''infinityan''" by auto
    then show ?thesis using py_lower_letters by blast
  next
    case False
    then have nl: "py_lower u \<noteq> ''inf''" "py_lower u \<noteq> ''infinity''" "py_lower u \<noteq> ''nan''"
      by simp_all
    from assms(1) ps nl obtain ds fr r where pn: "parse_number u = Some (ds, fr, r)"
      by (cases "parse_number u") (auto simp: py_float_def Let_def)
    from assms(1) ps nl pn obtain ex where pe: "parse_exponent r = Some (ex, [])"
      by (auto simp: py_float_def Let_def split: option.splits prod.splits list.splits)
    from parse_number_split[OF pn] obtain p1 where p1: "u = p1 @ r" "\<forall>c\<in>set p1. float_char c"
      by blast
    from parse_exponent_split[OF pe] obtain p2 where p2: "r = p2 @ []" "\<forall>c\<in>set p2. float_char c"
      by blast
    show ?thesis using p1 p2 by auto
  qed
  from py_strip_chars[OF assms(2)] show ?thesis
  proof
    assume "c \<in> set (py_strip s)"
    then show ?thesis using p0 u_ok by auto
  next
    assume "is_space c"
    then show ?thesis by (simp add: float_char_def)
  qed
qed

lemma py_float_is_float:
  assumes "py_float s = Inr v"
  shows "is_float v"
proof -
  obtain neg u where ps: "parse_sign (py_strip s) = (neg, u)" by (cases "parse_sign (py_strip s)")
  show ?thesis
  proof (cases "py_lower u = ''inf'' \<or> py_lower u = ''infinity'' \<or> py_lower u = ''nan''")
    case True
    with assms ps have "v = Num neg None \<or> v = NaN"
      by (auto simp: py_float_def Let_def)
    then show ?thesis by (auto simp: is_float_def)
  next
    case False
    then have nl: "py_lower u \<noteq> ''inf''" "py_lower u \<noteq> ''infinity''" "py_lower u \<noteq> ''nan''"
      by simp_all
    from assms ps nl obtain ds fr r where pn: "parse_number u = Some (ds, fr, r)"
      by (cases "parse_number u") (auto simp: py_float_def Let_def)
    from assms ps nl pn obtain ex where pe: "parse_exponent r = Some (ex, [])"
      by (auto simp: py_float_def Let_def split: option.splits prod.splits list.splits)
    define x where "x = of_nat (digits_val ds) * pow10 (ex - int fr)"
    have v: "v = Num neg (round64 x)"
      using assms ps nl pn pe by (simp add: py_float_def Let_def x_def)
    have "0 \<le> pow10 (ex - int fr)" by (simp add: pow10_def)
    then have x0: "0 \<le> x" by (simp add: x_def)
    show ?thesis
    proof (cases "round64 x")
      case None
      with v show ?thesis by (simp add: is_float_def)
    next
      case (Some m)
      from round64_Some_float[OF x0 Some] show ?thesis using v Some by (simp add: is_float_def)
    qed
  qed
qed

lemma not_float_char_units:
  "\<not> float_char CHR ''M''" "\<not> float_char CHR ''K''" "\<not> float_char CHR ''m''"
  "\<not> float_char CHR ''k''"
  by (simp_all add: float_char_def is_space_def is_digit_def py_lower_char_def)

lemma py_upper_char_unit:
  "py_upper_char c = CHR ''M'' \<Longrightarrow> c = CHR ''M'' \<or> c = CHR ''m''"
proof -
  assume a: "py_upper_char c = CHR ''M''"
  show ?thesis
  proof (cases "map_of (zip ''abcdefghijklmnopqrstuvwxyz'' ''ABCDEFGHIJKLMNOPQRSTUVWXYZ'') c")
    case None
    with a show ?thesis by (simp add: py_upper_char_def)
  next
    case (Some d)
    with a have d: "d = CHR ''M''" by (simp add: py_upper_char_def)
    from Some have "(c, d) \<in> set (zip ''abcdefghijklmnopqrstuvwxyz'' ''ABCDEFGHIJKLMNOPQRSTUVWXYZ'')"
      by (rule map_of_SomeD)
    with d show ?thesis by simp
  qed
qed

lemma py_replace_absent: "c \<notin> set s \<Longrightarrow> py_replace (c # cs) new s = s"
  by (induction s) auto

lemma py_replace_suffix: "c \<notin> set s \<Longrightarrow> py_replace (c # cs) [] (s @ c # cs) = s"
  by (induction s) auto

lemma py_contains_suffix: "py_contains sub (a @ sub)"
proof (induction a)
  case Nil
  show ?case by (cases sub) simp_all
next
  case (Cons x a)
  then show ?case by simp
qed

lemma py_contains_hd: "py_contains (c # cs) s \<Longrightarrow> c \<in> set s"
  by (induction s) auto

lemma py_upper_append: "py_upper (a @ b) = py_upper a @ py_upper b"
  by (simp add: py_upper_def)

lemma py_upper_units: "py_upper ''MB'' = ''MB''" "py_upper ''KB'' = ''KB''"
  by (simp_all add: py_upper_def py_upper_char_def)

lemma numeric_no_unit:
  assumes "py_float num = Inr v"
  shows "CHR ''M'' \<notin> set num" "CHR ''K'' \<notin> set num" "CHR ''M'' \<notin> set (py_upper num)"
proof -
  show m: "CHR ''M'' \<notin> set num" using py_float_chars[OF assms] not_float_char_units by blast
  show "CHR ''K'' \<notin> set num" using py_float_chars[OF assms] not_float_char_units by blast
  have m': "CHR ''m'' \<notin> set num" using py_float_chars[OF assms] not_float_char_units by blast
  show "CHR ''M'' \<notin> set (py_upper num)"
  proof
    assume "CHR ''M'' \<in> set (py_upper num)"
    then obtain x where x: "x \<in> set num" "py_upper_char x = CHR ''M''"
      unfolding py_upper_def by auto
    from py_upper_char_unit[OF x(2)] have "x = CHR ''M'' \<or> x = CHR ''m''" .
    with x(1) m m' show False by blast
  qed
qed

lemma convert_to_bytes_MB:
  assumes "py_float num = Inr v"
  shows "convert_to_bytes (num @ ''MB'') = Inr (times_pow2 v 20)"
proof -
  note n = numeric_no_unit[OF assms]
  have r1: "py_replace ''MB'' [] (num @ ''MB'') = num" using n(1) by (rule py_replace_suffix)
  have r2: "py_replace ''KB'' [] num = num" using n(2) by (rule py_replace_absent)
  have c: "py_contains ''MB'' (py_upper (num @ ''MB''))"
    by (simp only: py_upper_append py_upper_units py_contains_suffix)
  show ?thesis
    unfolding convert_to_bytes_def r1 r2
    using assms c fmul_1024_twice[OF py_float_is_float[OF assms]] by simp
qed

lemma convert_to_bytes_KB:
  assumes "py_float num = Inr v"
  shows "convert_to_bytes (num @ ''KB'') = Inr (times_pow2 v 10)"
proof -
  note n = numeric_no_unit[OF assms]
  have "CHR ''M'' \<notin> set (num @ ''KB'')" using n(1) by simp
  then have r1: "py_replace ''MB'' [] (num @ ''KB'') = num @ ''KB''" by (rule py_replace_absent)
  have r2: "py_replace ''KB'' [] (num @ ''KB'') = num" using n(2) by (rule py_replace_suffix)
  have u: "py_upper (num @ ''KB'') = py_upper num @ ''KB''"
    by (simp only: py_upper_append py_upper_units)
  have "CHR ''M'' \<notin> set (py_upper num @ ''KB'')" using n(3) by simp
  then have c1: "\<not> py_contains ''MB'' (py_upper (num @ ''KB''))"
    unfolding u using py_contains_hd by blast
  have c2: "py_contains ''KB'' (py_upper (num @ ''KB''))" by (simp only: u py_contains_suffix)
  show ?thesis
    unfolding convert_to_bytes_def r1 r2
    using assms c1 c2 fmul_1024[OF py_float_is_float[OF assms]] by simp
qed

lemmas py_float_eval =
  py_float_def Let_def py_strip_def is_space_def parse_sign_def py_lower_def py_lower_char_def
  parse_number_def digitpart_def is_digit_def parse_exponent_def digits_val_def digit_val_def
  pow10_def

lemma py_float_2: "py_float ''2'' = Inr (Num False (Some 2))"
  using round64_of_nat[of 2] by (simp add: py_float_eval)

lemma py_float_3: "py_float ''3'' = Inr (Num False (Some 3))"
  using round64_of_nat[of 3] by (simp add: py_float_eval)

lemma py_float_1: "py_float ''1'' = Inr (Num False (Some 1))"
  using round64_of_nat[of 1] by (simp add: py_float_eval)

lemma py_float_500: "py_float ''500'' = Inr (Num False (Some 500))"
  using round64_of_nat[of 500] by (simp add: py_float_eval)

lemma py_float_2_5: "py_float ''2.5'' = Inr (Num False (Some (5 / 2)))"
  using round64_of_nat_div_pow2[of 5 1] by (simp add: py_float_eval)

lemma pow2_1024_large: "(2::rat) ^ 40 < pow2 1024"
proof -
  have "pow2 40 < pow2 1024"
    unfolding pow2_powi by (rule power_int_strict_increasing) simp_all
  then show ?thesis by (simp add: pow2_def)
qed

lemma times_pow2_small:
  assumes "0 \<le> m" "m * 2 ^ n < 2 ^ 40"
  shows "times_pow2 (Num s (Some m)) n = Num s (Some (m * 2 ^ n))"
  using assms pow2_1024_large by (simp add: times_pow2_def)

lemma convert_to_bytes_examples:
  "convert_to_bytes ''2MB'' = Inr (Num False (Some 2097152))"
  "convert_to_bytes ''3MB'' = Inr (Num False (Some 3145728))"
  "convert_to_bytes ''1MB'' = Inr (Num False (Some 1048576))"
  "convert_to_bytes ''500KB'' = Inr (Num False (Some 512000))"
  "convert_to_bytes ''2.5MB'' = Inr (Num False (Some 2621440))"
  "convert_to_bytes ''2.5KB'' = Inr (Num False (Some 2560))"
  using convert_to_bytes_MB[OF py_float_2] convert_to_bytes_MB[OF py_float_3]
    convert_to_bytes_MB[OF py_float_1] convert_to_bytes_KB[OF py_float_500]
    convert_to_bytes_MB[OF py_float_2_5] convert_to_bytes_KB[OF py_float_2_5]
  by (simp_all add: times_pow2_small)

lemmas re_match_eval =
  re_match_def size_pattern_def size_unit_def is_digit_def py_lower_def py_lower_char_def

lemma size_pattern_examples:
  "re_match True size_pattern ''2MB-3MB'' = Some [''2MB'', ''3MB'']"
  "re_match True size_pattern ''500KB-1MB'' = Some [''500KB'', ''1MB'']"
  "re_match True size_pattern ''2-3MB'' = None"
  "re_match True size_pattern ''3MB-2MB'' = Some [''3MB'', ''2MB'']"
  "re_match True size_pattern ''2mb-3mb'' = Some [''2mb'', ''3mb'']"
  by (simp_all add: re_match_eval)

lemma py_split_examples:
  "py_split ''3MB-2MB JPG'' = [''3MB-2MB'', ''JPG'']"
  "py_split ''2-3MB JPG'' = [''2-3MB'', ''JPG'']"
  "py_split ''2mb-3mb JPG'' = [''2mb-3mb'', ''JPG'']"
  "py_split ''2MB-3MB JPG'' = [''2MB-3MB'', ''JPG'']"
  by (simp_all add: py_split.simps is_space_def)

lemma format_JPG: "py_upper ''JPG'' = ''JPG''" "map_of SUPPORTED_FORMATS ''JPG'' = Some ''JPEG''"
  by (simp_all add: py_upper_def py_upper_char_def SUPPORTED_FORMATS_def)

lemma py_replace_2mb: "py_replace ''KB'' [] (py_replace ''MB'' [] ''2mb'') = ''2mb''"
  by simp

lemma py_float_2mb:
  "py_float ''2mb'' =
     Inl (ValueError (''could not convert string to float: '' @ [CHR 0x27] @ ''2mb'' @ [CHR 0x27]))"
  by (simp add: py_float_eval py_repr_def repr_char_def)

lemma convert_to_bytes_2mb:
  "convert_to_bytes ''2mb'' =
     Inl (ValueError (''could not convert string to float: '' @ [CHR 0x27] @ ''2mb'' @ [CHR 0x27]))"
  unfolding convert_to_bytes_def py_replace_2mb py_float_2mb by simp

lemma float_le_examples:
  "float_le (Num False (Some 3145728)) (Num False (Some 2097152)) = False"
  "float_le (Num False (Some 2097152)) (Num False (Some 3145728)) = True"
  by (simp_all add: float_le_def xnum_of_float_def)

lemma handle_conversion_request_state:
  "snd (handle_conversion_request PI B u text st) = st(u := None)"
  by (auto simp: handle_conversion_request_def fun_eq_iff)

subsection \<open>The display of a size\<close>

lemma pow2_strict_mono: "a < b \<Longrightarrow> pow2 a < pow2 b"
  by (simp add: pow2_powi power_int_strict_increasing)

lemma ilog2_ge: "pow2 k \<le> x \<Longrightarrow> k \<le> ilog2 x"
proof (rule ccontr)
  assume a: "pow2 k \<le> x" and n: "\<not> k \<le> ilog2 x"
  have xpos: "0 < x" using a pow2_pos[of k] by linarith
  from n have "ilog2 x + 1 \<le> k" by simp
  then have "pow2 (ilog2 x + 1) \<le> pow2 k" by (rule pow2_mono)
  with ilog2_bounds[OF xpos] a show False by linarith
qed

lemma ilog2_le: "0 < x \<Longrightarrow> x \<le> pow2 k \<Longrightarrow> ilog2 x \<le> k"
proof (rule ccontr)
  assume xpos: "0 < x" and a: "x \<le> pow2 k" and n: "\<not> ilog2 x \<le> k"
  from n have "k < ilog2 x" by simp
  then have "pow2 k < pow2 (ilog2 x)" by (rule pow2_strict_mono)
  with ilog2_bounds[OF xpos] a show False by linarith
qed

lemma round_half_even_ge: "of_int a \<le> y \<Longrightarrow> a \<le> round_half_even y"
proof -
  assume "of_int a \<le> y"
  then have "a \<le> \<lfloor>y\<rfloor>" by (simp add: le_floor_iff)
  then show ?thesis by (simp add: round_half_even_def Let_def)
qed

lemma round_half_even_le: "y \<le> of_int b \<Longrightarrow> round_half_even y \<le> b"
proof -
  assume a: "y \<le> of_int b"
  then have f: "\<lfloor>y\<rfloor> \<le> b" by (simp add: floor_le_iff)
  show ?thesis
  proof (cases "y = of_int \<lfloor>y\<rfloor>")
    case True
    then have "y - of_int \<lfloor>y\<rfloor> = 0" by simp
    then show ?thesis using f by (simp add: round_half_even_def Let_def)
  next
    case False
    then have "of_int \<lfloor>y\<rfloor> < y" using of_int_floor_le[of y] by linarith
    with a have "(of_int \<lfloor>y\<rfloor> :: rat) < of_int b" by linarith
    then have "\<lfloor>y\<rfloor> < b" by (simp only: of_int_less_iff)
    then show ?thesis by (simp add: round_half_even_def Let_def)
  qed
qed

lemma round_mag_ge_pow2:
  assumes "pow2 k \<le> x" "- 1022 \<le> k"
  shows "pow2 k \<le> round_mag x"
proof -
  have xpos: "0 < x" using assms(1) pow2_pos[of k] by linarith
  define j where "j = ilog2 x"
  have kj: "k \<le> j" unfolding j_def using assms(1) by (rule ilog2_ge)
  then have mx: "max j (- 1022) = j" using assms(2) by simp
  define e where "e = j - 52"
  have fx: "round_mag x = of_int (round_half_even (x / pow2 e)) * pow2 e"
    using xpos mx by (simp add: round_mag_pos_unfold j_def[symmetric] e_def)
  have "j = 52 + e" by (simp add: e_def)
  then have "pow2 j = pow2 52 * pow2 e" by (simp only: pow2_add)
  moreover have "pow2 52 = 2 ^ 52" by (simp add: pow2_def)
  ultimately have pj: "pow2 j = 2 ^ 52 * pow2 e" by simp
  have "pow2 j \<le> x" using ilog2_bounds[OF xpos] by (simp add: j_def)
  then have "2 ^ 52 * pow2 e \<le> x" by (simp only: pj)
  then have "(2::rat) ^ 52 \<le> x / pow2 e" using pow2_pos[of e] by (simp add: pos_le_divide_eq)
  then have "(of_int (2 ^ 52) :: rat) \<le> x / pow2 e" by simp
  then have "2 ^ 52 \<le> round_half_even (x / pow2 e)" by (rule round_half_even_ge)
  then have "(of_int (2 ^ 52) :: rat) \<le> of_int (round_half_even (x / pow2 e))"
    by (simp only: of_int_le_iff)
  then have A: "(2::rat) ^ 52 \<le> of_int (round_half_even (x / pow2 e))" by simp
  have "(2::rat) ^ 52 * pow2 e \<le> of_int (round_half_even (x / pow2 e)) * pow2 e"
    by (rule mult_right_mono[OF A less_imp_le[OF pow2_pos]])
  then have "pow2 j \<le> round_mag x" by (simp only: pj fx)
  moreover have "pow2 k \<le> pow2 j" using kj by (rule pow2_mono)
  ultimately show ?thesis by linarith
qed

lemma round_mag_le_pow2:
  assumes "0 \<le> x" "x \<le> pow2 k" "- 1022 \<le> k"
  shows "round_mag x \<le> pow2 k"
proof (cases "x = 0")
  case True
  then show ?thesis using pow2_pos[of k] by (simp add: less_imp_le)
next
  case False
  with assms(1) have xpos: "0 < x" by simp
  define e where "e = max (ilog2 x) (- 1022) - 52"
  have fx: "round_mag x = of_int (round_half_even (x / pow2 e)) * pow2 e"
    using xpos by (simp add: round_mag_pos_unfold e_def)
  have "ilog2 x \<le> k" using xpos assms(2) by (rule ilog2_le)
  then have ek: "e \<le> k" using assms(3) by (simp add: e_def)
  define d where "d = nat (k - e)"
  have dk: "k = int d + e" using ek by (simp add: d_def)
  have "pow2 k = pow2 (int d) * pow2 e" by (subst dk) (simp only: pow2_add)
  then have pk: "pow2 k = 2 ^ d * pow2 e" by (simp add: pow2_nat)
  have "x \<le> 2 ^ d * pow2 e" using assms(2) by (simp only: pk)
  then have "x / pow2 e \<le> 2 ^ d" using pow2_pos[of e] by (simp add: pos_divide_le_eq)
  then have "x / pow2 e \<le> of_int (2 ^ d)" by simp
  then have "round_half_even (x / pow2 e) \<le> 2 ^ d" by (rule round_half_even_le)
  then have "(of_int (round_half_even (x / pow2 e)) :: rat) \<le> of_int (2 ^ d)"
    by (simp only: of_int_le_iff)
  then have A: "(of_int (round_half_even (x / pow2 e)) :: rat) \<le> 2 ^ d" by simp
  have "of_int (round_half_even (x / pow2 e)) * pow2 e \<le> (2::rat) ^ d * pow2 e"
    by (rule mult_right_mono[OF A less_imp_le[OF pow2_pos]])
  then show ?thesis by (simp only: pk fx)
qed

lemma is_float_mag_div_1024:
  assumes "is_float_mag r" "1024 \<le> r"
  shows "is_float_mag (r / 1024)"
proof -
  from assms(1) obtain m k where r: "r = of_int m * pow2 k" "0 \<le> m" "m < 2 ^ 53" "- 1074 \<le> k"
    unfolding is_float_mag_def by blast
  have k0: "- 53 \<le> k"
  proof (rule ccontr)
    assume "\<not> - 53 \<le> k"
    then have "k \<le> - 53" by simp
    then have "pow2 k \<le> pow2 (- 53)" by (rule pow2_mono)
    moreover have "pow2 (- 53) = 1 / 2 ^ 53" by (simp add: pow2_def)
    ultimately have pk: "pow2 k \<le> 1 / 2 ^ 53" by simp
    have "(of_int m :: rat) \<le> of_int (2 ^ 53)" using r(3) by (simp only: of_int_le_iff)
    then have m53: "(of_int m :: rat) \<le> 2 ^ 53" by simp
    have "of_int m * pow2 k \<le> 2 ^ 53 * (1 / 2 ^ 53 :: rat)"
      by (rule mult_mono[OF m53 pk]) (simp_all add: less_imp_le)
    then have "r \<le> 1" by (simp add: r(1))
    with assms(2) show False by simp
  qed
  have "pow2 (k + (- 10)) = pow2 k * pow2 (- 10)" by (simp only: pow2_add)
  moreover have "pow2 (- 10) = 1 / 1024" by (simp add: pow2_def)
  ultimately have "r / 1024 = of_int m * pow2 (k - 10)" by (simp add: r(1))
  moreover have "- 1074 \<le> k - 10" using k0 by simp
  ultimately show ?thesis unfolding is_float_mag_def using r(2,3) by blast
qed

lemma pow2_1023_lt: "pow2 1023 < pow2 1024"
  by (rule pow2_strict_mono) simp

lemma kb_size_value:
  assumes "n < 2 ^ 1033"
  shows "int_truediv (int n) 1024 = Inr (Num False (Some (round_mag (of_nat n / 1024))))"
proof -
  have "(of_nat n :: rat) < of_nat (2 ^ 1033)" using assms by (simp only: of_nat_less_iff)
  then have "(of_nat n :: rat) < 2 ^ 1033" by (simp only: of_nat_power of_nat_numeral)
  moreover have "(2::rat) ^ 1033 = 2 ^ 1023 * 2 ^ 10" by (simp only: power_add[symmetric]) simp
  ultimately have "(of_nat n :: rat) < 2 ^ 1023 * 1024" by simp
  then have "(of_nat n / 1024 :: rat) < 2 ^ 1023" by (simp add: pos_divide_less_eq)
  moreover have "pow2 1023 = 2 ^ 1023" by (simp only: pow2_def) simp
  ultimately have "(of_nat n / 1024 :: rat) \<le> pow2 1023" by simp
  then have "round_mag (of_nat n / 1024) \<le> pow2 1023" by (intro round_mag_le_pow2) simp_all
  then have "round_mag (of_nat n / 1024) < pow2 1024" using pow2_1023_lt by linarith
  then have "round64 (of_nat n / 1024) = Some (round_mag (of_nat n / 1024))"
    by (simp add: round64_def Let_def not_le)
  then show ?thesis by (simp add: int_truediv_def)
qed


lemma round_mag_kb_lt:
  assumes "n < 2 ^ 1033"
  shows "round_mag (of_nat n / 1024) < pow2 1024"
proof -
  have "(of_nat n :: rat) < of_nat (2 ^ 1033)" using assms by (simp only: of_nat_less_iff)
  then have "(of_nat n :: rat) < 2 ^ 1033" by (simp only: of_nat_power of_nat_numeral)
  moreover have "(2::rat) ^ 1033 = 2 ^ 1023 * 2 ^ 10" by (simp only: power_add[symmetric]) simp
  ultimately have "(of_nat n :: rat) < 2 ^ 1023 * 1024" by simp
  then have "(of_nat n / 1024 :: rat) < 2 ^ 1023" by (simp add: pos_divide_less_eq)
  moreover have "pow2 1023 = 2 ^ 1023" by (simp only: pow2_def) simp
  ultimately have "(of_nat n / 1024 :: rat) \<le> pow2 1023" by simp
  then have "round_mag (of_nat n / 1024) \<le> pow2 1023" by (intro round_mag_le_pow2) simp_all
  then show ?thesis using pow2_1023_lt by linarith
qed

lemma get_size_KB:
  assumes "n < 2 ^ 20"
  shows "get_size_in_appropriate_unit n
           = Inr (format_2f (Num False (Some (of_nat n / 1024))) @ ''KB'')"
proof -
  have n53: "n < 2 ^ 53" using assms by (rule less_trans) simp
  from round64_of_nat_div_pow2[OF n53, of 10]
  have r: "round64 (of_nat n / 1024) = Some (of_nat n / 1024)" by simp
  have kb: "int_truediv (int n) 1024 = Inr (Num False (Some (of_nat n / 1024)))"
    using r by (simp add: int_truediv_def)
  show ?thesis
    using assms
    by (simp add: get_size_in_appropriate_unit_def kb int_le_float_def xnum_of_float_def)
qed

lemma get_size_MB:
  assumes "2 ^ 20 \<le> n" "n < 2 ^ 1033"
  shows "get_size_in_appropriate_unit n
           = Inr (format_2f (Num False (Some (round_mag (of_nat n / 1024) / 1024))) @ ''MB'')"
proof -
  define kb where "kb = round_mag (of_nat n / 1024)"
  have "(2::rat) ^ 20 \<le> of_nat n" using assms(1) by (rule two_power_le_of_nat)
  then have "(1024::rat) \<le> of_nat n / 1024" by (simp add: pos_le_divide_eq)
  moreover have "pow2 10 = 1024" by (simp add: pow2_def)
  ultimately have x: "pow2 10 \<le> of_nat n / 1024" by simp
  have "pow2 10 \<le> kb" unfolding kb_def using x by (rule round_mag_ge_pow2) simp
  then have ge: "1024 \<le> kb" by (simp add: pow2_def)
  have fm: "is_float_mag kb" unfolding kb_def by (rule round_mag_repr) simp
  have lt: "kb < pow2 1024" unfolding kb_def using assms(2) by (rule round_mag_kb_lt)
  have "is_float_mag (kb / 1024)" using fm ge by (rule is_float_mag_div_1024)
  then have "round_mag (kb / 1024) = kb / 1024" by (rule round_mag_idem)
  moreover have "kb / 1024 < pow2 1024" using lt ge by simp
  ultimately have r: "round64 (kb / 1024) = Some (kb / 1024)"
    by (simp add: round64_def Let_def not_le)
  have d: "fdiv (Num False (Some kb)) float_1024 = Inr (Num False (Some (kb / 1024)))"
    using r by (simp add: fdiv_def)
  have k: "int_truediv (int n) 1024 = Inr (Num False (Some kb))"
    unfolding kb_def using assms(2) by (rule kb_size_value)
  show ?thesis
    using ge by (simp add: get_size_in_appropriate_unit_def k d int_le_float_def xnum_of_float_def
        kb_def[symmetric])
qed

lemma round_mag_of_nat_div_1024:
  assumes "n < 2 ^ 53"
  shows "round_mag (of_nat n / 1024) = of_nat n / 1024"
proof -
  from round64_of_nat_div_pow2[OF assms, of 10]
  have "round64 (of_nat n / 1024) = Some (of_nat n / 1024)" by simp
  then show ?thesis by (simp add: round64_def Let_def split: if_splits)
qed

lemma format_2f_two_decimals:
  assumes "0 \<le> m"
  shows "\<exists>h. format_2f (Num False (Some m))
                = str_nat (h div 100) @ ''.'' @ [digit_char (h mod 100 div 10), digit_char (h mod 10)]
              \<and> \<bar>of_nat h / 100 - m\<bar> \<le> 1 / 200"
proof -
  define r where "r = round_half_even (m * 100)"
  have "(of_int 0 :: rat) \<le> m * 100" using assms by simp
  then have r0: "0 \<le> r" unfolding r_def by (rule round_half_even_ge)
  define h where "h = nat r"
  have hr: "(of_nat h :: rat) = of_int r" using r0 by (simp add: h_def)
  have "of_int r \<le> m * 100 + 1 / 2" "m * 100 - 1 / 2 \<le> of_int r"
    using round_half_even_bounds[of "m * 100"] by (simp_all add: r_def)
  then have "\<bar>of_nat h / 100 - m\<bar> \<le> 1 / 200" unfolding hr by linarith
  moreover have "format_2f (Num False (Some m))
      = str_nat (h div 100) @ ''.'' @ [digit_char (h mod 100 div 10), digit_char (h mod 10)]"
    by (simp add: format_2f_def Let_def h_def r_def)
  ultimately show ?thesis by blast
qed

lemma format_2f_hundredths:
  "format_2f (Num False (Some (of_nat h / 100)))
     = str_nat (h div 100) @ ''.'' @ [digit_char (h mod 100 div 10), digit_char (h mod 10)]"
proof -
  have "(of_nat h / 100 * 100 :: rat) = of_int (int h)" by simp
  then have "round_half_even (of_nat h / 100 * 100) = int h"
    by (simp only: round_half_even_of_int)
  then show ?thesis by (simp add: format_2f_def Let_def)
qed

lemma display_examples:
  "get_size_in_appropriate_unit (1536 * 1024) = Inr ''1.50MB''"
  "get_size_in_appropriate_unit (500 * 1024) = Inr ''500.00KB''"
proof -
  have a: "round_mag (of_nat (1536 * 1024) / 1024) = of_nat (1536 * 1024) / 1024"
    by (rule round_mag_of_nat_div_1024) simp
  have "get_size_in_appropriate_unit (1536 * 1024)
      = Inr (format_2f (Num False (Some (round_mag (of_nat (1536 * 1024) / 1024) / 1024))) @ ''MB'')"
    by (rule get_size_MB) simp_all
  also have "round_mag (of_nat (1536 * 1024) / 1024) / 1024 = (of_nat 150 / 100 :: rat)"
    unfolding a by simp
  finally show "get_size_in_appropriate_unit (1536 * 1024) = Inr ''1.50MB''"
    by (simp only: format_2f_hundredths) (simp add: str_nat.simps digit_char_def)
  have "get_size_in_appropriate_unit (500 * 1024)
      = Inr (format_2f (Num False (Some (of_nat (500 * 1024) / 1024))) @ ''KB'')"
    by (rule get_size_KB) simp
  also have "(of_nat (500 * 1024) / 1024 :: rat) = of_nat 50000 / 100" by simp
  finally show "get_size_in_appropriate_unit (500 * 1024) = Inr ''500.00KB''"
    by (simp only: format_2f_hundredths) (simp add: str_nat.simps digit_char_def)
qed


lemma mb_value_error:
  assumes "2 ^ 20 \<le> n"
  shows "\<bar>round_mag (of_nat n / 1024) / 1024 - of_nat n / 1024 / 1024\<bar>
           \<le> (if n < 2 ^ 53 then 0 else of_nat n / 1024 / 1024 / 2 ^ 53)"
proof (cases "n < 2 ^ 53")
  case True
  then show ?thesis by (simp add: round_mag_of_nat_div_1024)
next
  case False
  define x :: rat where "x = of_nat n / 1024"
  have "(2::rat) ^ 20 \<le> of_nat n" using assms by (rule two_power_le_of_nat)
  then have "1 \<le> x" by (simp add: x_def pos_le_divide_eq)
  then have "\<bar>round_mag x - x\<bar> \<le> x / 2 ^ 53" by (rule round_mag_error)
  then have "\<bar>round_mag x - x\<bar> / 1024 \<le> x / 2 ^ 53 / 1024" by (simp add: divide_right_mono)
  moreover have "\<bar>round_mag x - x\<bar> / 1024 = \<bar>round_mag x / 1024 - x / 1024\<bar>"
  proof -
    have "round_mag x / 1024 - x / 1024 = (round_mag x - x) / 1024" by (simp add: diff_divide_distrib)
    then show ?thesis by (simp only: abs_divide)
  qed
  ultimately have "\<bar>round_mag x / 1024 - x / 1024\<bar> \<le> x / 1024 / 2 ^ 53" by simp
  with False show ?thesis by (simp add: x_def)
qed

section \<open>The claims\<close>

text \<open>
  Claim C5. The size pattern is matched without regard to case, so it lets \<^verbatim>\<open>2mb-3mb\<close>
  through. The conversion does not then succeed as the claim says: \<^verbatim>\<open>replace('MB', '')\<close>
  removes the upper-case unit only, \<^verbatim>\<open>float('2mb')\<close> raises, and the request with lower-case
  units ends in a \<^verbatim>\<open>ValueError\<close> where the same request in upper case is accepted.
\<close>

theorem lowercase_units_raise:
  "re_match True size_pattern ''2mb-3mb'' = Some [''2mb'', ''3mb''] \<and>
   convert_to_bytes ''2MB'' = Inr (Num False (Some 2097152)) \<and>
   convert_to_bytes ''2mb''
     = Inl (ValueError (''could not convert string to float: '' @ [CHR 0x27] @ ''2mb'' @ [CHR 0x27])) \<and>
   parse_request ''2MB-3MB JPG''
     = Inr (Num False (Some 2097152), Num False (Some 3145728), ''JPG'') \<and>
   parse_request ''2mb-3mb JPG''
     = Inl (ValueError (''could not convert string to float: '' @ [CHR 0x27] @ ''2mb'' @ [CHR 0x27]))"
  by (simp add: parse_request_def size_pattern_examples py_split_examples format_JPG
      convert_to_bytes_examples convert_to_bytes_2mb float_le_examples)


text \<open>
  Claim C7. Whatever the follow-up message, the image processor and the Telegram client do
  (a conversion, a validation error, a processing error, any other exception),
  \<^verbatim>\<open>handle_conversion_request\<close> leaves \<^verbatim>\<open>user_states\<close> without the user's entry and with the
  other entries as they were, so that the user is no longer awaiting a size and format. After
  \<^verbatim>\<open>handle_photo\<close> has recorded the file (or has failed and recorded nothing), one handled
  follow-up message leaves no entry for a second one.
\<close>

theorem tracker_entry_cleared:
  "snd (handle_conversion_request PI B u text st) = st(u := None) \<and>
   \<not> awaiting_size_format (snd (handle_conversion_request PI B u text st)) u \<and>
   (case get_file B fid of
      Inl e \<Rightarrow> snd (handle_photo B u fid st) = st
    | Inr r \<Rightarrow>
        (case int_truediv (int (snd r)) 1024 of
           Inl e \<Rightarrow> snd (handle_photo B u fid st) = st
         | Inr kb \<Rightarrow> awaiting_size_format (snd (handle_photo B u fid st)) u)) \<and>
   snd (handle_conversion_request PI B u text (snd (handle_photo B u fid st))) u = None"
  by (simp add: handle_conversion_request_state awaiting_size_format_def handle_photo_def
      split: sum.split prod.split)



text \<open>
  Claim C9. \<^verbatim>\<open>get_size_in_appropriate_unit(1536*1024)\<close> is \<^verbatim>\<open>1.50MB\<close> and
  \<^verbatim>\<open>get_size_in_appropriate_unit(500*1024)\<close> is \<^verbatim>\<open>500.00KB\<close>. For every byte count \<open>n\<close> below
  2 to the power 1033 (above, the division of the two ints raises \<^verbatim>\<open>OverflowError\<close>) the
  display is an integer part, a point and exactly two decimal digits, followed by \<^verbatim>\<open>MB\<close> when
  the size in KB, \<open>n / 1024\<close>, is at least 1024 and by \<^verbatim>\<open>KB\<close> otherwise. The number shown,
  \<open>h / 100\<close>, is the size in that unit rounded to two decimals: it is within \<open>1 / 200\<close> of
  the exact quotient for \<open>n\<close> below 2 to the power 53, where the divisions are exact, and
  within \<open>1 / 200\<close> plus the rounding error of the float division above.
\<close>

theorem display_size_two_decimals:
  "get_size_in_appropriate_unit (1536 * 1024) = Inr ''1.50MB'' \<and>
   get_size_in_appropriate_unit (500 * 1024) = Inr ''500.00KB'' \<and>
   (\<forall>n. n < 2 ^ 1033 \<longrightarrow>
      (\<exists>h. get_size_in_appropriate_unit n
             = Inr (str_nat (h div 100) @ ''.''
                    @ [digit_char (h mod 100 div 10), digit_char (h mod 10)]
                    @ (if 1024 \<le> (of_nat n / 1024 :: rat) then ''MB'' else ''KB''))
         \<and> \<bar>(of_nat h / 100 :: rat)
              - (if 1024 \<le> (of_nat n / 1024 :: rat) then of_nat n / 1024 / 1024
                 else of_nat n / 1024)\<bar>
             \<le> 1 / 200 + (if n < 2 ^ 53 then 0 else of_nat n / 1024 / 1024 / 2 ^ 53)))"
proof (intro conjI allI impI)
  show "get_size_in_appropriate_unit (1536 * 1024) = Inr ''1.50MB''"
    by (rule display_examples(1))
  show "get_size_in_appropriate_unit (500 * 1024) = Inr ''500.00KB''"
    by (rule display_examples(2))
next
  fix n :: nat
  assume n: "n < 2 ^ 1033"
  show "\<exists>h. get_size_in_appropriate_unit n
             = Inr (str_nat (h div 100) @ ''.''
                    @ [digit_char (h mod 100 div 10), digit_char (h mod 10)]
                    @ (if 1024 \<le> (of_nat n / 1024 :: rat) then ''MB'' else ''KB''))
         \<and> \<bar>(of_nat h / 100 :: rat)
              - (if 1024 \<le> (of_nat n / 1024 :: rat) then of_nat n / 1024 / 1024
                 else of_nat n / 1024)\<bar>
             \<le> 1 / 200 + (if n < 2 ^ 53 then 0 else of_nat n / 1024 / 1024 / 2 ^ 53)"
  proof (cases "2 ^ 20 \<le> n")
    case True
    then have "(2::rat) ^ 20 \<le> of_nat n" by (rule two_power_le_of_nat)
    then have c: "1024 \<le> (of_nat n / 1024 :: rat)" by (simp add: pos_le_divide_eq)
    define v where "v = round_mag (of_nat n / 1024) / 1024"
    define q :: rat where "q = of_nat n / 1024 / 1024"
    define E :: rat where "E = (if n < 2 ^ 53 then 0 else of_nat n / 1024 / 1024 / 2 ^ 53)"
    have "is_float_mag (round_mag (of_nat n / 1024))" by (rule round_mag_repr) simp
    then have "0 \<le> round_mag (of_nat n / 1024)" by (rule is_float_mag_nonneg)
    then have v0: "0 \<le> v" by (simp add: v_def)
    from format_2f_two_decimals[OF v0] obtain h where
      h: "format_2f (Num False (Some v))
            = str_nat (h div 100) @ ''.'' @ [digit_char (h mod 100 div 10), digit_char (h mod 10)]"
         "\<bar>of_nat h / 100 - v\<bar> \<le> 1 / 200" by blast
    have "\<bar>v - q\<bar> \<le> E" unfolding v_def q_def E_def using True by (rule mb_value_error)
    with h(2) have b: "\<bar>of_nat h / 100 - q\<bar> \<le> 1 / 200 + E" by linarith
    have s: "get_size_in_appropriate_unit n
        = Inr (str_nat (h div 100) @ ''.''
               @ [digit_char (h mod 100 div 10), digit_char (h mod 10)] @ ''MB'')"
      using get_size_MB[OF True n] h(1) by (simp add: v_def)
    show ?thesis
      apply (rule exI[of _ h])
      apply (simp only: c if_True)
      using s b unfolding q_def E_def by simp
  next
    case False
    then have n20: "n < 2 ^ 20" by simp
    then have n53: "n < 2 ^ 53" by (rule less_trans) simp
    have "(of_nat n :: rat) < of_nat (2 ^ 20)" using n20 by (simp only: of_nat_less_iff)
    then have c: "\<not> 1024 \<le> (of_nat n / 1024 :: rat)" by (simp add: pos_le_divide_eq)
    have v0: "(0::rat) \<le> of_nat n / 1024" by simp
    from format_2f_two_decimals[OF v0] obtain h where
      h: "format_2f (Num False (Some (of_nat n / 1024)))
            = str_nat (h div 100) @ ''.'' @ [digit_char (h mod 100 div 10), digit_char (h mod 10)]"
         "\<bar>of_nat h / 100 - of_nat n / 1024\<bar> \<le> (1 / 200 :: rat)" by blast
    have s: "get_size_in_appropriate_unit n
        = Inr (str_nat (h div 100) @ ''.''
               @ [digit_char (h mod 100 div 10), digit_char (h mod 10)] @ ''KB'')"
      using get_size_KB[OF n20] h(1) by simp
    show ?thesis
      apply (rule exI[of _ h])
      apply (simp only: c if_False n53 if_True)
      using s h(2) by simp
  qed
qed

theorem display_size_two_decimals_witness:
  "(2048::nat) < 2 ^ 1033 \<and>
   (\<exists>h. get_size_in_appropriate_unit 2048
          = Inr (str_nat (h div 100) @ ''.''
                 @ [digit_char (h mod 100 div 10), digit_char (h mod 10)] @ ''KB'')
      \<and> \<bar>of_nat h / 100 - 2\<bar> \<le> (1 / 200 :: rat))"
proof -
  have a: "(2048::nat) < 2 ^ 1033" by simp
  from display_size_two_decimals
  have "\<forall>n. n < 2 ^ 1033 \<longrightarrow>
      (\<exists>h. get_size_in_appropriate_unit n
             = Inr (str_nat (h div 100) @ ''.''
                    @ [digit_char (h mod 100 div 10), digit_char (h mod 10)]
                    @ (if 1024 \<le> (of_nat n / 1024 :: rat) then ''MB'' else ''KB''))
         \<and> \<bar>(of_nat h / 100 :: rat)
              - (if 1024 \<le> (of_nat n / 1024 :: rat) then of_nat n / 1024 / 1024
                 else of_nat n / 1024)\<bar>
             \<le> 1 / 200 + (if n < 2 ^ 53 then 0 else of_nat n / 1024 / 1024 / 2 ^ 53))"
    by (elim conjE)
  then have "\<exists>h. get_size_in_appropriate_unit 2048
             = Inr (str_nat (h div 100) @ ''.''
                    @ [digit_char (h mod 100 div 10), digit_char (h mod 10)]
                    @ (if 1024 \<le> (of_nat 2048 / 1024 :: rat) then ''MB'' else ''KB''))
         \<and> \<bar>(of_nat h / 100 :: rat)
              - (if 1024 \<le> (of_nat 2048 / 1024 :: rat) then of_nat 2048 / 1024 / 1024
                 else of_nat 2048 / 1024)\<bar>
             \<le> 1 / 200 + (if (2048::nat) < 2 ^ 53 then 0 else of_nat 2048 / 1024 / 1024 / 2 ^ 53)"
    using a by blast
  then show ?thesis using a by simp
qed

end
